theory Spec2Isabelle
  imports Complex_Main
begin

section \<open>LexLSI: the active-set outer loop of a lexicographic least-squares solver\<close>

text \<open>
  A shallow embedding of the class \<open>LexLS::internal::LexLSI\<close> of \<^verbatim>\<open>include/lexlsi.h\<close>.

  The class is a mutable object; every member function becomes a function from the
  object's state (the record \<open>LexLSI\<close>) to a result and the state it leaves. A C++
  exception does not undo the writes made before it, so a member function that can throw
  returns the error together with the state at the moment of the throw.

  \<^verbatim>\<open>lexlsi.h\<close> includes \<^verbatim>\<open>lexlse.h\<close>, \<^verbatim>\<open>objective.h\<close> and \<^verbatim>\<open>cycling.h\<close>, which
  are not part of the sources at hand. What \<open>LexLSI\<close> needs of them is either modelled
  from the specification (the working set of an objective: the definitions marked
  "Modelled from the spec") or taken as a parameter (the numerical kernels: the record
  \<open>backend\<close>).

  Conventions.
  \<^item> \<open>Index\<close> is an unsigned integer type; indices and counters are natural numbers here,
    so the model describes runs in which no counter exceeds the range of \<open>Index\<close>. The
    one place where the source mixes \<open>int\<close> and \<open>Index\<close> (\<open>findActiveCtr2Remove\<close>), and
    the difference \<open>nObj - nObjOffset\<close> of the constructor, which is below zero when
    \<open>nObj = 0\<close>, have their wrap-around written out.
  \<^item> \<open>RealScalar\<close> is idealised as \<open>real\<close>: rounding, infinities and NaN are outside the
    model.
  \<^item> An unchecked access outside a vector, and a read of a local variable that was never
    assigned, are undefined behaviour in C++; the model stops with the errors
    \<open>OutOfRange\<close> and \<open>Uninitialised\<close>.
  \<^item> \<open>outputStuff\<close> and \<open>print\<close> only write to a file or to the terminal and change
    nothing of the object; they are left out.
\<close>

subsection \<open>Enumerations and errors\<close>

datatype ObjectiveType = GENERAL_OBJECTIVE | SIMPLE_BOUNDS_OBJECTIVE

datatype ConstraintActivationType =
  CTR_INACTIVE | CTR_ACTIVE_LB | CTR_ACTIVE_UB | CTR_ACTIVE_EQ

datatype TerminationStatus =
  TERMINATION_STATUS_UNKNOWN
  | PROBLEM_SOLVED
  | PROBLEM_SOLVED_CYCLING_HANDLING
  | MAX_NUMBER_OF_FACTORIZATIONS_EXCEDED

datatype OperationType = OPERATION_UNDEFINED | OPERATION_ADD | OPERATION_REMOVE

text \<open>
  \<open>Exception msg\<close> is \<^verbatim>\<open>throw Exception(msg)\<close>, the only exception type of the source
  (the specification calls it \<open>InvalidInput\<close>).
\<close>

datatype error = Exception string | OutOfRange | Uninitialised

fun InvalidInput :: "error \<Rightarrow> bool" where
  "InvalidInput (Exception msg) = True"
| "InvalidInput OutOfRange = False"
| "InvalidInput Uninitialised = False"

type_synonym Index = nat
type_synonym RealScalar = real
type_synonym dVectorType = "real list"
type_synonym dMatrixType = "real list list"

text \<open>A matrix is the list of its rows; \<open>coeffRef\<close> reads one coefficient.\<close>

definition coeffRef :: "dMatrixType \<Rightarrow> Index \<Rightarrow> Index \<Rightarrow> RealScalar option" where
  "coeffRef m i j =
     (if i < length m \<and> j < length (m ! i) then Some (m ! i ! j) else None)"

subsection \<open>One objective and its working set\<close>

text \<open>
  The fields of an objective that \<open>LexLSI\<close> reads or that the properties proved below are about: the type
  and the row count fixed by \<open>resize\<close>, the activation type of every row (\<open>CtrType\<close>), the
  ordered list of active rows (\<open>active\<close>), the stored row data (\<open>data\<close>, \<open>VarIndex\<close>), the
  residual \<open>v\<close> and its step \<open>dv\<close>.
\<close>

record Objective =
  ObjType :: ObjectiveType
  ObjDim :: Index
  CtrType :: "ConstraintActivationType list"
  active :: "Index list"
  data :: dMatrixType
  VarIndex :: "Index list"
  v :: dVectorType
  dv :: dVectorType

definition getObjType :: "Objective \<Rightarrow> ObjectiveType" where
  "getObjType obj = ObjType obj"

definition getDim :: "Objective \<Rightarrow> Index" where
  "getDim obj = ObjDim obj"

definition Objective_getActiveCtrCount :: "Objective \<Rightarrow> Index" where
  "Objective_getActiveCtrCount obj = length (active obj)"

text \<open>
  Modelled from the spec: \<open>Objective::resize\<close> (\<^verbatim>\<open>objective.h\<close> is missing). "Objective
  storage is allocated once": \<open>p\<close> rows, all inactive, an empty working set, residual and
  step of length \<open>p\<close>; no row data yet.
\<close>

definition Objective_resize :: "Index \<Rightarrow> Index \<Rightarrow> ObjectiveType \<Rightarrow> Objective" where
  "Objective_resize p n t =
     \<lparr> ObjType = t, ObjDim = p, CtrType = replicate p CTR_INACTIVE, active = [],
       data = [], VarIndex = [], v = replicate p 0, dv = replicate p 0 \<rparr>"

text \<open>
  Modelled from the spec: \<open>Objective::isActive\<close>, \<open>getActiveCtrIndex\<close> and
  \<open>getActiveCtrType\<close> (\<^verbatim>\<open>objective.h\<close> is missing). "Every row is in exactly one state":
  a row is active when its state is not \<open>INACTIVE\<close>; the working set is "an ordered
  sequence of row indices currently active, each with its activation type".
\<close>

definition isActive :: "Objective \<Rightarrow> Index \<Rightarrow> bool option" where
  "isActive obj CtrIndex =
     (if CtrIndex < length (CtrType obj) then Some (CtrType obj ! CtrIndex \<noteq> CTR_INACTIVE)
      else None)"

definition getActiveCtrIndex :: "Objective \<Rightarrow> Index \<Rightarrow> Index option" where
  "getActiveCtrIndex obj k = (if k < length (active obj) then Some (active obj ! k) else None)"

definition getActiveCtrType :: "Objective \<Rightarrow> Index \<Rightarrow> ConstraintActivationType option" where
  "getActiveCtrType obj k =
     (if k < length (active obj) \<and> active obj ! k < length (CtrType obj)
      then Some (CtrType obj ! (active obj ! k)) else None)"

text \<open>
  Modelled from the spec: \<open>Objective::activate\<close> and \<open>Objective::deactivate\<close>
  (\<^verbatim>\<open>objective.h\<close> is missing). "\<open>activate(row, type)\<close>, \<open>deactivate(k_active_index)\<close>:
  maintain \<open>ctrType\<close> and \<open>activeList\<close>"; "ordering is insertion order; removals shift
  later entries up"; "the working set contains each index at most once". The last
  sentence is kept by refusing a row that is already active, which is also what
  \<open>api_activate\<close> of \<^verbatim>\<open>lexlsi.h\<close> guards against with \<open>isActive\<close> before it calls
  \<open>activate\<close>.
\<close>

definition Objective_activate ::
  "Index \<Rightarrow> ConstraintActivationType \<Rightarrow> Objective \<Rightarrow> error + Objective" where
  "Objective_activate CtrIndex type obj =
     (if \<not> CtrIndex < length (CtrType obj) then Inl OutOfRange
      else if CtrType obj ! CtrIndex \<noteq> CTR_INACTIVE
      then Inl (Exception ''Cannot activate an active constraint'')
      else Inr (obj\<lparr> CtrType := (CtrType obj)[CtrIndex := type],
                      active := active obj @ [CtrIndex] \<rparr>))"

definition Objective_deactivate :: "Index \<Rightarrow> Objective \<Rightarrow> error + Objective" where
  "Objective_deactivate CtrIndexActive obj =
     (if \<not> CtrIndexActive < length (active obj) then Inl OutOfRange
      else Inr (obj\<lparr> CtrType := (CtrType obj)[active obj ! CtrIndexActive := CTR_INACTIVE],
                      active := take CtrIndexActive (active obj)
                                @ drop (Suc CtrIndexActive) (active obj) \<rparr>))"

text \<open>
  Modelled from the spec: the two \<open>Objective::setData\<close> (\<^verbatim>\<open>objective.h\<close> is missing):
  they store the row data (and, for simple bounds, the \<open>p\<close> variable indices).
\<close>

definition Objective_setData :: "dMatrixType \<Rightarrow> Objective \<Rightarrow> Objective" where
  "Objective_setData d obj = obj\<lparr> data := d \<rparr>"

definition Objective_setData_simple :: "Index list \<Rightarrow> dMatrixType \<Rightarrow> Objective \<Rightarrow> Objective" where
  "Objective_setData_simple VarIndex0 d obj =
     obj\<lparr> VarIndex := take (ObjDim obj) VarIndex0, data := d \<rparr>"

text \<open>
  Modelled from the spec: \<open>Objective::step\<close> (\<^verbatim>\<open>objective.h\<close> is missing):
  "\<open>step(\<alpha>)\<close>: \<open>v \<leftarrow> v + \<alpha>\<cdot>dv\<close>".
\<close>

definition axpy :: "RealScalar \<Rightarrow> dVectorType \<Rightarrow> dVectorType \<Rightarrow> dVectorType" where
  "axpy alpha d y = map (\<lambda>(yi, di). yi + alpha * di) (zip y d)"

definition Objective_step :: "RealScalar \<Rightarrow> Objective \<Rightarrow> Objective" where
  "Objective_step alpha obj = obj\<lparr> v := axpy alpha (dv obj) (v obj) \<rparr>"

subsection \<open>Parameters, the numerical backend and the state of the solver\<close>

text \<open>
  \<open>ParametersLexLSI\<close> (its header is missing): the fields that \<^verbatim>\<open>lexlsi.h\<close> reads. The
  enumeration behind \<open>regularization_type\<close> is missing too; its value is kept as a
  number.
\<close>

record ParametersLexLSI =
  max_number_of_factorizations :: Index
  tol_linear_dependence :: RealScalar
  tol_wrong_sign_lambda :: RealScalar
  tol_correct_sign_lambda :: RealScalar
  tol_feasibility :: RealScalar
  regularization_type :: nat
  max_number_of_CG_iterations :: Index
  variable_regularization_factor :: RealScalar
  cycling_handling_enabled :: bool
  cycling_max_counter :: Index
  cycling_relax_step :: RealScalar
  output_file_name :: string

text \<open>\<open>ConstraintIdentifier\<close>: objective, row and activation type, as \<open>set\<close> receives them.\<close>

type_synonym ConstraintIdentifier = "Index \<times> Index \<times> ConstraintActivationType"

text \<open>
  The numerical kernels of the missing headers, taken as parameters. \<open>'l\<close> is the state
  of the \<open>LexLSE\<close> instance and \<open>'c\<close> the state of the \<open>CyclingHandler\<close>. Nothing is assumed
  of the functions but their types, and the types say what a kernel may write:
  \<^item> \<open>tol_isEqual\<close>: the tolerance of \<open>isEqual\<close>;
  \<^item> \<open>Objective_phase1_v\<close> and \<open>Objective_formStep_dv\<close>: the residual \<open>v\<close> that
    \<open>Objective::phase1(x)\<close> computes and the step \<open>dv\<close> that \<open>Objective::formStep(dx)\<close>
    computes;
  \<^item> \<open>Objective_tightest\<close>: the scan of \<open>Objective::checkBlockingConstraints\<close> over the
    inactive rows, given the feasibility tolerance and the incoming \<open>alpha\<close>: the row, the
    bound it hits and its step length, if there is a candidate;
  \<^item> \<open>Objective_formLexLSE\<close>: \<open>Objective::formLexLSE(lexlse, counter, ObjIndex - nObjOffset)\<close>,
    which writes to \<open>lexlse\<close> and advances \<open>counter\<close>; the last argument is the integer
    that the unsigned difference stands for;
  \<^item> \<open>lexlse_new\<close>, \<open>lexlse_setParameters\<close>, \<open>lexlse_setObjDim\<close>, \<open>lexlse_factorize\<close>,
    \<open>lexlse_solve\<close>, \<open>lexlse_get_x\<close>: the members of \<open>LexLSE\<close> of these names
    (\<open>lexlse_new\<close>: what the constructor of \<open>LexLSI\<close> does to it, that is construction,
    \<open>setParameters\<close> and \<open>resize\<close>; \<open>lexlse_setParameters\<close> receives the parameters of
    \<open>LexLSI\<close>, of which \<open>setParameters\<close> copies four);
  \<^item> \<open>lexlse_ObjectiveSensitivity\<close>: the five-argument \<open>LexLSE::ObjectiveSensitivity\<close> for
    one level and the two sign tolerances: \<open>Some (CtrIndex2Remove, ObjIndex2Remove)\<close> when
    it returns true, and the state it leaves;
  \<^item> \<open>cycling_new\<close>: the handler as the constructor of \<open>LexLSI\<close> leaves it;
    \<open>cycling_set\<close>: \<open>set_max_counter\<close> followed by \<open>set_relax_step\<close>;
  \<^item> \<open>cycling_update\<close>: \<open>CyclingHandler::update\<close>, given the operation, the constraint
    identifier (\<open>None\<close>: as default-constructed, \<open>set\<close> was not called), the objectives and
    \<open>nIterations\<close>: whether the handler asks to stop, its new state, and the row data of
    the objectives after its relaxation of bounds.
\<close>

record ('l, 'c) backend =
  tol_isEqual :: RealScalar
  Objective_phase1_v :: "dVectorType \<Rightarrow> Objective \<Rightarrow> dVectorType"
  Objective_formStep_dv :: "dVectorType \<Rightarrow> Objective \<Rightarrow> dVectorType"
  Objective_tightest ::
    "Objective \<Rightarrow> RealScalar \<Rightarrow> RealScalar \<Rightarrow> (Index \<times> ConstraintActivationType \<times> RealScalar) option"
  Objective_formLexLSE :: "Objective \<Rightarrow> 'l \<Rightarrow> Index \<Rightarrow> int \<Rightarrow> 'l \<times> Index"
  lexlse_new :: "ParametersLexLSI \<Rightarrow> Index \<Rightarrow> Index \<Rightarrow> Index list \<Rightarrow> 'l"
  lexlse_setParameters :: "ParametersLexLSI \<Rightarrow> 'l \<Rightarrow> 'l"
  lexlse_setObjDim :: "Index list \<Rightarrow> 'l \<Rightarrow> 'l"
  lexlse_factorize :: "'l \<Rightarrow> 'l"
  lexlse_solve :: "'l \<Rightarrow> 'l"
  lexlse_get_x :: "'l \<Rightarrow> dVectorType"
  lexlse_ObjectiveSensitivity ::
    "'l \<Rightarrow> Index \<Rightarrow> RealScalar \<Rightarrow> RealScalar \<Rightarrow> (Index \<times> int) option \<times> 'l"
  cycling_new :: "ParametersLexLSI \<Rightarrow> 'c"
  cycling_set :: "Index \<Rightarrow> RealScalar \<Rightarrow> 'c \<Rightarrow> 'c"
  cycling_update ::
    "'c \<Rightarrow> OperationType \<Rightarrow> ConstraintIdentifier option \<Rightarrow> Objective list \<Rightarrow> Index
      \<Rightarrow> bool \<times> 'c \<times> dMatrixType list"

text \<open>
  Modelled from the spec: \<open>isEqual\<close> (its header is missing): "rows with
  \<open>|l\<^sub>i - u\<^sub>i| < \<tau>_eq\<close> auto-activated as \<open>EQ\<close>".
\<close>

definition isEqual :: "('l, 'c) backend \<Rightarrow> RealScalar \<Rightarrow> RealScalar \<Rightarrow> bool" where
  "isEqual B a b = (\<bar>a - b\<bar> < tol_isEqual B)"

text \<open>The data members of \<open>LexLSI\<close>.\<close>

record ('l, 'c) LexLSI =
  parameters :: ParametersLexLSI
  nVar :: Index
  nObj :: Index
  nObjOffset :: Index
  nActivations :: Index
  nDeactivations :: Index
  nFactorizations :: Index
  nIterations :: Index
  x0_is_specified :: bool
  step_length :: RealScalar
  x :: dVectorType
  dx :: dVectorType
  nActive :: "Index list"
  status :: TerminationStatus
  lexlse :: 'l
  objectives :: "Objective list"
  cycling_handler :: 'c

subsection \<open>Construction\<close>

text \<open>\<open>initialize()\<close>: the four counters, \<open>step_length\<close>, \<open>x\<close> and \<open>dx\<close>.\<close>

definition initialize :: "('l, 'c) LexLSI \<Rightarrow> ('l, 'c) LexLSI" where
  "initialize s =
     s\<lparr> nIterations := 0, nActivations := 0, nDeactivations := 0, nFactorizations := 0,
        step_length := 0,
        x := replicate (length (x s)) 0, dx := replicate (length (dx s)) 0 \<rparr>"

text \<open>
  The constructor with \<open>resize\<close> inlined (it is private and called from nowhere else).
  \<open>defaults\<close> is what \<open>parameters.setDefaults()\<close> leaves (its header is missing). The
  pointer arguments are the lists \<open>ObjDim0\<close> and \<open>ObjType0\<close>; \<open>resize\<close> reads
  \<open>ObjType0 ! 0\<close>, whatever \<open>nObj\<close> is, and the first \<open>nObj\<close> entries of both; a read
  past the end of a list is \<open>OutOfRange\<close>. The number of objectives is not checked:
  with \<open>nObj = 0\<close> the object is constructed without objectives, and the unsigned
  difference \<open>nObj - nObjOffset\<close> that \<open>lexlse.resize\<close> is given wraps when the type
  read is \<open>SIMPLE_BOUNDS_OBJECTIVE\<close>. \<open>lexlse.resize\<close> is given the pointer
  \<open>ObjDim_ + nObjOffset\<close>: the list from \<open>nObjOffset\<close> on.
\<close>

definition LexLSI_new ::
  "('l, 'c) backend \<Rightarrow> ParametersLexLSI \<Rightarrow> Index \<Rightarrow> Index \<Rightarrow> Index list \<Rightarrow> ObjectiveType list
    \<Rightarrow> error + ('l, 'c) LexLSI" where
  "LexLSI_new B defaults nVar0 nObj0 ObjDim0 ObjType0 =
     (if ObjType0 = [] \<or> length ObjType0 < nObj0 \<or> length ObjDim0 < nObj0 then Inl OutOfRange
      else
        let off = (if ObjType0 ! 0 = SIMPLE_BOUNDS_OBJECTIVE then 1 else 0) in
        Inr (initialize
          \<lparr> parameters = defaults, nVar = nVar0, nObj = nObj0, nObjOffset = off,
            nActivations = 0, nDeactivations = 0, nFactorizations = 0, nIterations = 0,
            x0_is_specified = False, step_length = 0,
            x = replicate nVar0 0, dx = replicate nVar0 0,
            nActive = replicate nObj0 0,
            status = TERMINATION_STATUS_UNKNOWN,
            lexlse = lexlse_new B defaults nVar0
                       (if off \<le> nObj0 then nObj0 - off else 2 ^ 32 - 1) (drop off ObjDim0),
            objectives =
              map (\<lambda>ObjIndex. Objective_resize (ObjDim0 ! ObjIndex) nVar0 (ObjType0 ! ObjIndex))
                [0..<nObj0],
            cycling_handler = cycling_new B defaults \<rparr>))"

subsection \<open>Working-set operations of the solver\<close>

text \<open>\<open>activate\<close>: the range check, the objective's own \<open>activate\<close>, the counter.\<close>

definition activate ::
  "Index \<Rightarrow> Index \<Rightarrow> ConstraintActivationType \<Rightarrow> bool \<Rightarrow> ('l, 'c) LexLSI
    \<Rightarrow> error option \<times> ('l, 'c) LexLSI" where
  "activate ObjIndex CtrIndex type CountIteration s =
     (if ObjIndex \<ge> nObj s then (Some (Exception ''ObjIndex >= nObj''), s)
      else if \<not> ObjIndex < length (objectives s) then (Some OutOfRange, s)
      else
        case Objective_activate CtrIndex type (objectives s ! ObjIndex) of
          Inl e \<Rightarrow> (Some e, s)
        | Inr obj \<Rightarrow>
            (None, s\<lparr> objectives := (objectives s)[ObjIndex := obj],
                      nActivations :=
                        (if CountIteration then nActivations s + 1 else nActivations s) \<rparr>))"

definition deactivate ::
  "Index \<Rightarrow> Index \<Rightarrow> ('l, 'c) LexLSI \<Rightarrow> error option \<times> ('l, 'c) LexLSI" where
  "deactivate ObjIndex CtrIndexActive s =
     (if ObjIndex \<ge> nObj s then (Some (Exception ''ObjIndex >= nObj''), s)
      else if \<not> ObjIndex < length (objectives s) then (Some OutOfRange, s)
      else
        case Objective_deactivate CtrIndexActive (objectives s ! ObjIndex) of
          Inl e \<Rightarrow> (Some e, s)
        | Inr obj \<Rightarrow>
            (None, s\<lparr> objectives := (objectives s)[ObjIndex := obj],
                      nDeactivations := nDeactivations s + 1 \<rparr>))"

text \<open>
  \<open>api_activate\<close>. The result \<open>Inr out\<close> is a normal return, \<open>out\<close> being the lines written
  to \<open>std::cout\<close>. \<open>objectives[ObjIndex]\<close> is read before any range check.
\<close>

definition api_activate ::
  "Index \<Rightarrow> Index \<Rightarrow> ConstraintActivationType \<Rightarrow> ('l, 'c) LexLSI
    \<Rightarrow> (error + string list) \<times> ('l, 'c) LexLSI" where
  "api_activate ObjIndex CtrIndex type s =
     (if \<not> ObjIndex < length (objectives s) then (Inl OutOfRange, s)
      else
        case isActive (objectives s ! ObjIndex) CtrIndex of
          None \<Rightarrow> (Inl OutOfRange, s)
        | Some True \<Rightarrow> (Inr [], s)
        | Some False \<Rightarrow>
            if type = CTR_ACTIVE_LB \<or> type = CTR_ACTIVE_UB then
              (case activate ObjIndex CtrIndex type False s of
                 (Some e, s') \<Rightarrow> (Inl e, s')
               | (None, s') \<Rightarrow> (Inr [], s'))
            else
              (Inr [''WARNING: the user cannot define explicitly which constraints are of type CTR_ACTIVE_EQ ''],
               s))"

text \<open>\<open>setParameters\<close>.\<close>

definition setParameters ::
  "('l, 'c) backend \<Rightarrow> ParametersLexLSI \<Rightarrow> ('l, 'c) LexLSI \<Rightarrow> ('l, 'c) LexLSI" where
  "setParameters B parameters0 s =
     s\<lparr> parameters := parameters0,
        lexlse := lexlse_setParameters B parameters0 (lexlse s),
        cycling_handler :=
          (if cycling_handling_enabled parameters0
           then cycling_set B (cycling_max_counter parameters0) (cycling_relax_step parameters0)
                  (cycling_handler s)
           else cycling_handler s) \<rparr>"

definition set_x0 :: "dVectorType \<Rightarrow> ('l, 'c) LexLSI \<Rightarrow> ('l, 'c) LexLSI" where
  "set_x0 x0 s = s\<lparr> x := x0, x0_is_specified := True \<rparr>"

text \<open>\<open>getActiveCtrCount\<close>: the sum over the first \<open>nObj\<close> objectives.\<close>

definition getActiveCtrCount :: "('l, 'c) LexLSI \<Rightarrow> Index" where
  "getActiveCtrCount s =
     sum_list (map Objective_getActiveCtrCount (take (nObj s) (objectives s)))"

subsection \<open>Setting the data of an objective\<close>

text \<open>
  The loop "check bounds" of both \<open>setData\<close>: the rows in order, the bounds read from
  the columns \<open>lcol\<close> and \<open>ucol\<close> (\<open>nVar\<close> and \<open>nVar + 1\<close> for a general objective, \<open>0\<close> and
  \<open>1\<close> for simple bounds), \<open>msg\<close> the text of the exception. The loop's bound \<open>getDim()\<close>
  is read once: \<open>activate\<close> does not change it.
\<close>

fun check_bounds ::
  "('l, 'c) backend \<Rightarrow> Index \<Rightarrow> dMatrixType \<Rightarrow> Index \<Rightarrow> Index \<Rightarrow> string \<Rightarrow> Index list
    \<Rightarrow> ('l, 'c) LexLSI \<Rightarrow> error option \<times> ('l, 'c) LexLSI" where
  "check_bounds B ObjIndex d lcol ucol msg [] s = (None, s)"
| "check_bounds B ObjIndex d lcol ucol msg (CtrIndex # rest) s =
     (case (coeffRef d CtrIndex lcol, coeffRef d CtrIndex ucol) of
        (Some bl, Some bu) \<Rightarrow>
          if isEqual B bl bu then
            (case activate ObjIndex CtrIndex CTR_ACTIVE_EQ False s of
               (Some e, s') \<Rightarrow> (Some e, s')
             | (None, s') \<Rightarrow> check_bounds B ObjIndex d lcol ucol msg rest s')
          else if bl > bu then (Some (Exception msg), s)
          else check_bounds B ObjIndex d lcol ucol msg rest s
      | _ \<Rightarrow> (Some OutOfRange, s))"

text \<open>\<open>setData(ObjIndex, data)\<close> for a general objective.\<close>

definition setData ::
  "('l, 'c) backend \<Rightarrow> Index \<Rightarrow> dMatrixType \<Rightarrow> ('l, 'c) LexLSI
    \<Rightarrow> error option \<times> ('l, 'c) LexLSI" where
  "setData B ObjIndex d s =
     (if ObjIndex \<ge> nObj s then (Some (Exception ''ObjIndex >= nObj''), s)
      else if \<not> ObjIndex < length (objectives s) then (Some OutOfRange, s)
      else if getObjType (objectives s ! ObjIndex) \<noteq> GENERAL_OBJECTIVE
      then (Some (Exception ''ObjType = GENERAL_OBJECTIVE is assumed''), s)
      else if getDim (objectives s ! ObjIndex) \<noteq> length d
      then (Some (Exception ''Incorrect number of equations''), s)
      else
        case check_bounds B ObjIndex d (nVar s) (nVar s + 1)
               ''(general) Lower bound is greater than upper bound.''
               [0..<getDim (objectives s ! ObjIndex)] s of
          (Some e, s') \<Rightarrow> (Some e, s')
        | (None, s') \<Rightarrow>
            (None, s'\<lparr> objectives :=
               (objectives s')[ObjIndex := Objective_setData d (objectives s' ! ObjIndex)] \<rparr>))"

text \<open>
  The test of the double loop over \<open>VarIndex\<close>: some \<open>k\<close> and \<open>j\<close> below \<open>p\<close> with
  \<open>VarIndex[k] == VarIndex[j]\<close> and \<open>j != k\<close>.
\<close>

definition VarIndex_repeated :: "Index list \<Rightarrow> Index \<Rightarrow> bool" where
  "VarIndex_repeated VarIndex0 p =
     list_ex (\<lambda>k. list_ex (\<lambda>j. VarIndex0 ! k = VarIndex0 ! j \<and> j \<noteq> k) [0..<p]) [0..<p]"

text \<open>
  \<open>setData(ObjIndex, VarIndex, data)\<close> for simple bounds. \<open>VarIndex\<close> is a pointer; the
  double loop reads its first \<open>getDim()\<close> entries.
\<close>

definition setData_simple ::
  "('l, 'c) backend \<Rightarrow> Index \<Rightarrow> Index list \<Rightarrow> dMatrixType \<Rightarrow> ('l, 'c) LexLSI
    \<Rightarrow> error option \<times> ('l, 'c) LexLSI" where
  "setData_simple B ObjIndex VarIndex0 d s =
     (if ObjIndex \<ge> nObj s then (Some (Exception ''ObjIndex >= nObj''), s)
      else if \<not> ObjIndex < length (objectives s) then (Some OutOfRange, s)
      else if getObjType (objectives s ! ObjIndex) \<noteq> SIMPLE_BOUNDS_OBJECTIVE
      then (Some (Exception ''ObjType = SIMPLE_BOUNDS_OBJECTIVE is assumed''), s)
      else if getDim (objectives s ! ObjIndex) \<noteq> length d
      then (Some (Exception ''Incorrect number of equations''), s)
      else
        case check_bounds B ObjIndex d 0 1
               ''(simple) Lower bound is greater than upper bound.''
               [0..<getDim (objectives s ! ObjIndex)] s of
          (Some e, s') \<Rightarrow> (Some e, s')
        | (None, s') \<Rightarrow>
            if length VarIndex0 < getDim (objectives s' ! ObjIndex) then (Some OutOfRange, s')
            else if VarIndex_repeated VarIndex0 (getDim (objectives s' ! ObjIndex))
            then (Some (Exception ''Elements of VarIndex are not unique.''), s')
            else
              (None, s'\<lparr> objectives :=
                 (objectives s')[ObjIndex :=
                    Objective_setData_simple VarIndex0 d (objectives s' ! ObjIndex)] \<rparr>))"

subsection \<open>Assembling the equality problem and forming the step\<close>

text \<open>A loop \<open>for (ObjIndex=0; ObjIndex<nObj; ObjIndex++) objectives[ObjIndex].f(...)\<close>.\<close>

definition for_each_objective ::
  "Index \<Rightarrow> (Objective \<Rightarrow> Objective) \<Rightarrow> Objective list \<Rightarrow> Objective list" where
  "for_each_objective n f objs = map f (take n objs) @ drop n objs"

text \<open>
  The second loop of \<open>formLexLSE\<close>: every objective writes its active rows to \<open>lexlse\<close>
  and advances \<open>counter\<close>.
\<close>

fun formLexLSE_loop ::
  "('l, 'c) backend \<Rightarrow> Index \<Rightarrow> Objective list \<Rightarrow> Index \<Rightarrow> 'l \<Rightarrow> Index \<Rightarrow> 'l \<times> Index" where
  "formLexLSE_loop B off [] ObjIndex l counter = (l, counter)"
| "formLexLSE_loop B off (obj # objs) ObjIndex l counter =
     (case Objective_formLexLSE B obj l counter (int ObjIndex - int off) of
        (l', counter') \<Rightarrow> formLexLSE_loop B off objs (Suc ObjIndex) l' counter')"

definition formLexLSE :: "('l, 'c) backend \<Rightarrow> ('l, 'c) LexLSI \<Rightarrow> ('l, 'c) LexLSI" where
  "formLexLSE B s =
     (let na = map Objective_getActiveCtrCount (take (nObj s) (objectives s));
          l1 = lexlse_setObjDim B (drop (nObjOffset s) na) (lexlse s);
          l2 = fst (formLexLSE_loop B (nObjOffset s) (take (nObj s) (objectives s)) 0 l1 0)
      in s\<lparr> nActive := na, lexlse := l2 \<rparr>)"

definition formStep :: "('l, 'c) backend \<Rightarrow> ('l, 'c) LexLSI \<Rightarrow> ('l, 'c) LexLSI" where
  "formStep B s =
     (let d = map (\<lambda>(a, b). a - b) (zip (lexlse_get_x B (lexlse s)) (x s))
      in s\<lparr> dx := d,
            objectives :=
              for_each_objective (nObj s) (\<lambda>obj. obj\<lparr> dv := Objective_formStep_dv B d obj \<rparr>)
                (objectives s) \<rparr>)"

subsection \<open>Phase 1\<close>

text \<open>
  \<open>phase1()\<close>. The loop \<open>x(k) = 0.01\<close> runs over \<open>k < nVar\<close>; \<open>x\<close> has \<open>nVar\<close> entries
  whenever \<open>set_x0\<close> was never called, which is the only case in which the loop runs.
\<close>

definition phase1 :: "('l, 'c) backend \<Rightarrow> ('l, 'c) LexLSI \<Rightarrow> ('l, 'c) LexLSI" where
  "phase1 B s =
     (let active_constraints_exist =
            list_ex (\<lambda>obj. Objective_getActiveCtrCount obj > 0) (take (nObj s) (objectives s));
          s1 = (if active_constraints_exist then
                  (let a = formLexLSE B s in
                   if \<not> x0_is_specified a then
                     (let l = lexlse_solve B (lexlse_factorize B (lexlse a))
                      in a\<lparr> lexlse := l, x := lexlse_get_x B l,
                            nFactorizations := nFactorizations a + 1 \<rparr>)
                   else a)
                else if \<not> x0_is_specified s
                then s\<lparr> x := fold (\<lambda>k xs. xs[k := 1 / 100]) [0..<nVar s] (x s) \<rparr>
                else s);
          s2 = s1\<lparr> objectives :=
                 for_each_objective (nObj s1)
                   (\<lambda>obj. obj\<lparr> v := Objective_phase1_v B (x s1) obj \<rparr>) (objectives s1) \<rparr>;
          s3 = s2\<lparr> dx := replicate (length (dx s2)) 0 \<rparr>
      in s3\<lparr> objectives :=
             for_each_objective (nObj s3)
               (\<lambda>obj. obj\<lparr> dv := Objective_formStep_dv B (dx s3) obj \<rparr>) (objectives s3) \<rparr>)"

subsection \<open>Blocking constraints and removal candidates\<close>

text \<open>
  Modelled from the spec: \<open>Objective::checkBlockingConstraints\<close> (\<^verbatim>\<open>objective.h\<close> is
  missing): "update \<open>\<alpha>_in_out\<close> with the tightest value across the objective and report
  the row index and which bound was hit". It returns true, and writes its three
  reference arguments, when its candidate lowers \<open>alpha\<close>. A reference argument that was
  never written is \<open>None\<close>.
\<close>

definition Objective_checkBlockingConstraints ::
  "('l, 'c) backend \<Rightarrow> Objective \<Rightarrow> Index option \<times> ConstraintActivationType \<times> RealScalar
    \<Rightarrow> RealScalar \<Rightarrow> bool \<times> Index option \<times> ConstraintActivationType \<times> RealScalar" where
  "Objective_checkBlockingConstraints B obj io tol =
     (case io of (CtrIndexBlocking, CtrTypeBlocking, alpha) \<Rightarrow>
        (case Objective_tightest B obj tol alpha of
           Some (row, type, a) \<Rightarrow>
             if a < alpha then (True, Some row, type, a)
             else (False, CtrIndexBlocking, CtrTypeBlocking, alpha)
         | None \<Rightarrow> (False, CtrIndexBlocking, CtrTypeBlocking, alpha)))"

fun checkBlockingConstraints_loop ::
  "('l, 'c) backend \<Rightarrow> RealScalar \<Rightarrow> Objective list \<Rightarrow> Index
    \<Rightarrow> Index option \<times> Index option \<times> ConstraintActivationType \<times> RealScalar
    \<Rightarrow> Index option \<times> Index option \<times> ConstraintActivationType \<times> RealScalar" where
  "checkBlockingConstraints_loop B tol [] ObjIndex acc = acc"
| "checkBlockingConstraints_loop B tol (obj # objs) ObjIndex acc =
     (case acc of (ObjIndexBlocking, io) \<Rightarrow>
        (case Objective_checkBlockingConstraints B obj io tol of
           (found, io') \<Rightarrow>
             checkBlockingConstraints_loop B tol objs (Suc ObjIndex)
               (if found then Some ObjIndex else ObjIndexBlocking, io')))"

text \<open>
  \<open>checkBlockingConstraints\<close>: \<open>alpha = 1\<close>, the loop over the objectives, and the test
  \<open>alpha < 1\<close>. The result is the returned flag and the four reference arguments.
\<close>

definition checkBlockingConstraints ::
  "('l, 'c) backend \<Rightarrow> ('l, 'c) LexLSI
    \<Rightarrow> Index option \<times> Index option \<times> ConstraintActivationType
    \<Rightarrow> bool \<times> Index option \<times> Index option \<times> ConstraintActivationType \<times> RealScalar" where
  "checkBlockingConstraints B s init =
     (case init of (ObjIndexBlocking, CtrIndexBlocking, CtrTypeBlocking) \<Rightarrow>
        (case checkBlockingConstraints_loop B (tol_feasibility (parameters s))
                (take (nObj s) (objectives s)) 0
                (ObjIndexBlocking, CtrIndexBlocking, CtrTypeBlocking, 1) of
           (ObjIndexBlocking', CtrIndexBlocking', CtrTypeBlocking', alpha) \<Rightarrow>
             (alpha < 1, ObjIndexBlocking', CtrIndexBlocking', CtrTypeBlocking', alpha)))"

text \<open>
  The loop of \<open>findActiveCtr2Remove\<close> over the objectives of \<open>LexLSE\<close>, left at the first
  level that reports a descent direction.
\<close>

fun findActiveCtr2Remove_loop ::
  "('l, 'c) backend \<Rightarrow> RealScalar \<Rightarrow> RealScalar \<Rightarrow> Index list \<Rightarrow> 'l
    \<Rightarrow> (Index \<times> int) option \<times> 'l" where
  "findActiveCtr2Remove_loop B tw tc [] l = (None, l)"
| "findActiveCtr2Remove_loop B tw tc (ObjIndex # rest) l =
     (case lexlse_ObjectiveSensitivity B l ObjIndex tw tc of
        (Some r, l') \<Rightarrow> (Some r, l')
      | (None, l') \<Rightarrow> findActiveCtr2Remove_loop B tw tc rest l')"

text \<open>
  \<open>findActiveCtr2Remove\<close>: \<open>Some (ObjIndex2Remove, CtrIndex2Remove)\<close> when it returns true.
  \<open>ObjIndex2Remove = ObjIndex2Remove_int + nObjOffset\<close> adds an \<open>int\<close> to an unsigned
  \<open>Index\<close> and stores an \<open>Index\<close>: the sum modulo \<open>2 ^ 32\<close>, so that \<open>-1\<close> with offset \<open>1\<close> is
  objective \<open>0\<close>, and \<open>-1\<close> with offset \<open>0\<close> is an index far above \<open>nObj\<close>.
\<close>

definition findActiveCtr2Remove ::
  "('l, 'c) backend \<Rightarrow> ('l, 'c) LexLSI \<Rightarrow> (Index \<times> Index) option \<times> ('l, 'c) LexLSI" where
  "findActiveCtr2Remove B s =
     (case findActiveCtr2Remove_loop B (tol_wrong_sign_lambda (parameters s))
             (tol_correct_sign_lambda (parameters s)) [0..<nObj s - nObjOffset s] (lexlse s) of
        (Some (CtrIndex2Remove, ObjIndex2Remove_int), l) \<Rightarrow>
          (Some (nat ((ObjIndex2Remove_int + int (nObjOffset s)) mod 2 ^ 32), CtrIndex2Remove),
           s\<lparr> lexlse := l \<rparr>)
      | (None, l) \<Rightarrow> (None, s\<lparr> lexlse := l \<rparr>))"

subsection \<open>One iteration of the active-set method\<close>

text \<open>
  The block of \<open>verifyWorkingSet\<close> under \<open>nIterations != 0\<close>: assemble, factorize, solve,
  form the step, count the factorization.
\<close>

definition refactorize :: "('l, 'c) backend \<Rightarrow> ('l, 'c) LexLSI \<Rightarrow> ('l, 'c) LexLSI" where
  "refactorize B s =
     (let a = formLexLSE B s;
          b = a\<lparr> lexlse := lexlse_solve B (lexlse_factorize B (lexlse a)) \<rparr>;
          c = formStep B b
      in c\<lparr> nFactorizations := nFactorizations c + 1 \<rparr>)"

text \<open>
  Modelled from the spec: what \<open>CyclingHandler::update\<close> returns and writes
  (\<^verbatim>\<open>cycling.h\<close> is missing): "when counter \<open>\<ge> max_counter\<close>: apply a relaxation step
  (widen the bounds of the oscillating constraint) and signal \<open>SOLVED_CYCLING_HANDLING\<close>;
  else: continue", where "\<open>status\<close> is \<open>UNKNOWN\<close> until a terminal condition fires". Of
  the objectives it writes row data only.
\<close>

definition relax_data :: "dMatrixType list \<Rightarrow> Objective list \<Rightarrow> Objective list" where
  "relax_data ds objs =
     map (\<lambda>i. (objs ! i)\<lparr> data := (if i < length ds then ds ! i else data (objs ! i)) \<rparr>)
       [0..<length objs]"

definition CyclingHandler_update ::
  "('l, 'c) backend \<Rightarrow> OperationType \<Rightarrow> ConstraintIdentifier option \<Rightarrow> ('l, 'c) LexLSI
    \<Rightarrow> ('l, 'c) LexLSI" where
  "CyclingHandler_update B operation cid s =
     (case cycling_update B (cycling_handler s) operation cid (objectives s) (nIterations s) of
        (stop, c, ds) \<Rightarrow>
          s\<lparr> status := (if stop then PROBLEM_SOLVED_CYCLING_HANDLING
                        else TERMINATION_STATUS_UNKNOWN),
             cycling_handler := c,
             objectives := relax_data ds (objectives s) \<rparr>)"

text \<open>
  The end of \<open>verifyWorkingSet\<close>, from the assignment of \<open>step_length\<close> on: the step, the
  cycling handler, the iteration counter.
\<close>

definition end_of_iteration ::
  "('l, 'c) backend \<Rightarrow> OperationType \<Rightarrow> ConstraintIdentifier option \<Rightarrow> RealScalar
    \<Rightarrow> ('l, 'c) LexLSI \<Rightarrow> ('l, 'c) LexLSI" where
  "end_of_iteration B operation cid alpha s =
     (let s1 = s\<lparr> step_length := (if operation = OPERATION_ADD then alpha else - 1) \<rparr>;
          s2 = (if alpha > 0 then
                  s1\<lparr> x := axpy alpha (dx s1) (x s1),
                      objectives :=
                        for_each_objective (nObj s1) (Objective_step alpha) (objectives s1) \<rparr>
                else s1);
          s3 = (if cycling_handling_enabled (parameters s2) \<and> operation \<noteq> OPERATION_UNDEFINED
                then CyclingHandler_update B operation cid s2 else s2)
      in s3\<lparr> nIterations := nIterations s3 + 1 \<rparr>)"

text \<open>
  The identifier that the branch \<open>OPERATION_REMOVE\<close> sets when cycling handling is
  enabled; it reads \<open>objectives[ObjIndex2Manipulate]\<close> before \<open>deactivate\<close> checks the
  index.
\<close>

definition identifier_to_remove ::
  "('l, 'c) LexLSI \<Rightarrow> Index \<Rightarrow> Index \<Rightarrow> error + ConstraintIdentifier option" where
  "identifier_to_remove s ObjIndex CtrIndexActive =
     (if \<not> cycling_handling_enabled (parameters s) then Inr None
      else if \<not> ObjIndex < length (objectives s) then Inl OutOfRange
      else
        case (getActiveCtrIndex (objectives s ! ObjIndex) CtrIndexActive,
              getActiveCtrType (objectives s ! ObjIndex) CtrIndexActive) of
          (Some CtrIndex, Some type) \<Rightarrow> Inr (Some (ObjIndex, CtrIndex, type))
        | _ \<Rightarrow> Inl OutOfRange)"

text \<open>
  \<open>verifyWorkingSet\<close>. \<open>ObjIndex2Manipulate\<close> and \<open>CtrIndex2Manipulate\<close> start
  unassigned, \<open>CtrType2Manipulate\<close> as \<open>CTR_INACTIVE\<close>.
\<close>

definition verifyWorkingSet ::
  "('l, 'c) backend \<Rightarrow> ('l, 'c) LexLSI \<Rightarrow> (error + OperationType) \<times> ('l, 'c) LexLSI" where
  "verifyWorkingSet B s0 =
     (let normalIteration = \<not> (nIterations s0 = 0 \<and> x0_is_specified s0);
          s1 = (if nIterations s0 \<noteq> 0 then refactorize B s0 else s0)
      in
        case checkBlockingConstraints B s1 (None, None, CTR_INACTIVE) of
          (blocking, ObjIndex2Manipulate, CtrIndex2Manipulate, CtrType2Manipulate, alpha) \<Rightarrow>
            if blocking then
              (case (ObjIndex2Manipulate, CtrIndex2Manipulate) of
                 (Some ObjIndex, Some CtrIndex) \<Rightarrow>
                   (case activate ObjIndex CtrIndex CtrType2Manipulate True s1 of
                      (Some e, s2) \<Rightarrow> (Inl e, s2)
                    | (None, s2) \<Rightarrow>
                        (Inr OPERATION_ADD,
                         end_of_iteration B OPERATION_ADD
                           (if cycling_handling_enabled (parameters s1)
                            then Some (ObjIndex, CtrIndex, CtrType2Manipulate) else None)
                           alpha s2))
               | _ \<Rightarrow> (Inl Uninitialised, s1))
            else if normalIteration then
              (case findActiveCtr2Remove B s1 of
                 (Some (ObjIndex, CtrIndexActive), s2) \<Rightarrow>
                   (case identifier_to_remove s2 ObjIndex CtrIndexActive of
                      Inl e \<Rightarrow> (Inl e, s2)
                    | Inr cid \<Rightarrow>
                        (case deactivate ObjIndex CtrIndexActive s2 of
                           (Some e, s3) \<Rightarrow> (Inl e, s3)
                         | (None, s3) \<Rightarrow>
                             (Inr OPERATION_REMOVE,
                              end_of_iteration B OPERATION_REMOVE cid alpha s3)))
               | (None, s2) \<Rightarrow>
                   (Inr OPERATION_UNDEFINED,
                    end_of_iteration B OPERATION_UNDEFINED None alpha
                      (s2\<lparr> status := PROBLEM_SOLVED \<rparr>)))
            else (Inr OPERATION_UNDEFINED, end_of_iteration B OPERATION_UNDEFINED None alpha s1))"

subsection \<open>The loop of \<open>solve\<close>\<close>

text \<open>
  What an iteration does to the counters that decide whether the loop goes on. These
  facts are needed before the loop can be defined: they are its termination argument.
\<close>

lemma activate_cases:
  "activate ObjIndex CtrIndex type c s = (r, s') \<Longrightarrow>
     (r \<noteq> None \<and> s' = s) \<or>
     (r = None \<and> ObjIndex < nObj s \<and> ObjIndex < length (objectives s) \<and>
      (\<exists>obj. Objective_activate CtrIndex type (objectives s ! ObjIndex) = Inr obj \<and>
         s' = s\<lparr> objectives := (objectives s)[ObjIndex := obj],
                  nActivations := (if c then nActivations s + 1 else nActivations s) \<rparr>))"
  by (auto simp: activate_def split: if_splits sum.splits)

lemma deactivate_cases:
  "deactivate ObjIndex k s = (r, s') \<Longrightarrow>
     (r \<noteq> None \<and> s' = s) \<or>
     (r = None \<and> ObjIndex < nObj s \<and> ObjIndex < length (objectives s) \<and>
      (\<exists>obj. Objective_deactivate k (objectives s ! ObjIndex) = Inr obj \<and>
         s' = s\<lparr> objectives := (objectives s)[ObjIndex := obj],
                  nDeactivations := nDeactivations s + 1 \<rparr>))"
  by (auto simp: deactivate_def split: if_splits sum.splits)

lemma findActiveCtr2Remove_state:
  "\<exists>l. snd (findActiveCtr2Remove B s) = s\<lparr> lexlse := l \<rparr>"
  by (auto simp: findActiveCtr2Remove_def split: prod.splits option.splits)

lemma end_of_iteration_counters [simp]:
  "nIterations (end_of_iteration B operation cid alpha s) = nIterations s + 1"
  "nFactorizations (end_of_iteration B operation cid alpha s) = nFactorizations s"
  "parameters (end_of_iteration B operation cid alpha s) = parameters s"
  "nActivations (end_of_iteration B operation cid alpha s) = nActivations s"
  "nDeactivations (end_of_iteration B operation cid alpha s) = nDeactivations s"
  by (simp_all add: end_of_iteration_def CyclingHandler_update_def Let_def split: prod.splits)

lemma refactorize_counters [simp]:
  "nIterations (refactorize B s) = nIterations s"
  "nFactorizations (refactorize B s) = nFactorizations s + 1"
  "parameters (refactorize B s) = parameters s"
  "nActivations (refactorize B s) = nActivations s"
  "nDeactivations (refactorize B s) = nDeactivations s"
  by (simp_all add: refactorize_def formStep_def formLexLSE_def Let_def)

lemma verifyWorkingSet_counters:
  assumes "verifyWorkingSet B s = (Inr operation, s')"
  shows "nIterations s' = nIterations s + 1"
    and "nFactorizations s' = nFactorizations s + (if nIterations s \<noteq> 0 then 1 else 0)"
    and "parameters s' = parameters s"
  using assms findActiveCtr2Remove_state[of B s] findActiveCtr2Remove_state[of B "refactorize B s"]
  by (auto simp: verifyWorkingSet_def Let_def split: prod.splits if_splits option.splits sum.splits
      dest!: activate_cases deactivate_cases)

text \<open>
  The loop \<open>while (1)\<close> of \<open>solve\<close>: an exception of \<open>verifyWorkingSet\<close> leaves the loop
  and \<open>solve\<close>; otherwise the loop ends on one of the two "solved" values of \<open>status\<close>, or
  when the factorizations are used up.
\<close>

function solve_loop ::
  "('l, 'c) backend \<Rightarrow> ('l, 'c) LexLSI \<Rightarrow> (error + TerminationStatus) \<times> ('l, 'c) LexLSI" where
  "solve_loop B s =
     (case verifyWorkingSet B s of
        (Inl e, s') \<Rightarrow> (Inl e, s')
      | (Inr operation, s') \<Rightarrow>
          if status s' = PROBLEM_SOLVED \<or> status s' = PROBLEM_SOLVED_CYCLING_HANDLING
          then (Inr (status s'), s')
          else if nFactorizations s' \<ge> max_number_of_factorizations (parameters s')
          then (Inr MAX_NUMBER_OF_FACTORIZATIONS_EXCEDED,
                s'\<lparr> status := MAX_NUMBER_OF_FACTORIZATIONS_EXCEDED \<rparr>)
          else solve_loop B s')"
  by pat_completeness auto
termination
proof (relation "measure (\<lambda>(B, s).
          2 * (max_number_of_factorizations (parameters s) - nFactorizations s)
          + (if nIterations s = 0 then 1 else 0))", goal_cases)
  case 1
  show ?case by simp
next
  case (2 B s r s' operation)
  then have vws: "verifyWorkingSet B s = (Inr operation, s')" by simp
  note c = verifyWorkingSet_counters [OF vws]
  from 2 c show ?case by (auto split: if_splits)
qed

declare solve_loop.simps [simp del]

text \<open>\<open>solve()\<close>: phase 1, then the loop; the value returned is \<open>status\<close>.\<close>

definition solve ::
  "('l, 'c) backend \<Rightarrow> ('l, 'c) LexLSI \<Rightarrow> (error + TerminationStatus) \<times> ('l, 'c) LexLSI" where
  "solve B s = solve_loop B (phase1 B s)"

text \<open>
  The states on which the loop of \<open>solve\<close> runs \<open>verifyWorkingSet\<close>, in order: the
  iteration boundaries before the last iteration. It follows the recursion of
  \<open>solve_loop\<close>.
\<close>

function visited :: "('l, 'c) backend \<Rightarrow> ('l, 'c) LexLSI \<Rightarrow> ('l, 'c) LexLSI list" where
  "visited B s =
     s # (case verifyWorkingSet B s of
            (Inl e, s') \<Rightarrow> []
          | (Inr operation, s') \<Rightarrow>
              if status s' = PROBLEM_SOLVED \<or> status s' = PROBLEM_SOLVED_CYCLING_HANDLING
              then []
              else if nFactorizations s' \<ge> max_number_of_factorizations (parameters s')
              then []
              else visited B s')"
  by pat_completeness auto
termination
proof (relation "measure (\<lambda>(B, s).
          2 * (max_number_of_factorizations (parameters s) - nFactorizations s)
          + (if nIterations s = 0 then 1 else 0))", goal_cases)
  case 1
  show ?case by simp
next
  case (2 B s r s' operation)
  then have vws: "verifyWorkingSet B s = (Inr operation, s')" by simp
  note c = verifyWorkingSet_counters [OF vws]
  from 2 c show ?case by (auto split: if_splits)
qed

declare visited.simps [simp del]

section \<open>A small instance for the examples\<close>

text \<open>
  The theorems below hold for every backend. Their examples run on one small backend
  for problems with one variable: \<open>LexLSE\<close> records the activation types of the rows it
  is given, level by level, and always answers \<open>x = 0\<close>; the residual of an objective is
  \<open>x\<close> itself and its step is \<open>dx\<close>; an inactive first row blocks at \<open>alpha = 1/2\<close> when
  the residual exceeds \<open>1\<close> and the step decreases it; the first row of a level that is active at its lower bound
  has a multiplier of the wrong sign; the cycling handler never asks to stop and relaxes
  nothing; \<open>isEqual\<close> has the tolerance \<open>1/1000\<close>.
\<close>

fun first_LB :: "ConstraintActivationType list \<Rightarrow> Index option" where
  "first_LB [] = None"
| "first_LB (t # ts) = (if t = CTR_ACTIVE_LB then Some 0 else map_option Suc (first_LB ts))"

definition toy :: "(ConstraintActivationType list list, nat) backend" where
  "toy =
     \<lparr> tol_isEqual = 1 / 1000,
       Objective_phase1_v = (\<lambda>xs obj. xs),
       Objective_formStep_dv = (\<lambda>d obj. d),
       Objective_tightest = (\<lambda>obj tol alpha.
          case (v obj, dv obj, CtrType obj) of
            (r # _, d # _, CTR_INACTIVE # _) \<Rightarrow>
              if r > 1 \<and> d < 0 then Some (0, CTR_ACTIVE_UB, 1 / 2) else None
          | _ \<Rightarrow> None),
       Objective_formLexLSE = (\<lambda>obj l counter i.
          (l @ [map (\<lambda>k. CtrType obj ! k) (active obj)], counter + length (active obj))),
       lexlse_new = (\<lambda>p n m ds. []),
       lexlse_setParameters = (\<lambda>p l. l),
       lexlse_setObjDim = (\<lambda>ds l. []),
       lexlse_factorize = (\<lambda>l. l),
       lexlse_solve = (\<lambda>l. l),
       lexlse_get_x = (\<lambda>l. [0]),
       lexlse_ObjectiveSensitivity = (\<lambda>l ObjIndex tw tc.
          (if ObjIndex < length l
           then map_option (\<lambda>k. (k, int ObjIndex)) (first_LB (l ! ObjIndex)) else None, l)),
       cycling_new = (\<lambda>p. 0),
       cycling_set = (\<lambda>m r c. c),
       cycling_update = (\<lambda>c operation cid objs n. (False, c, map data objs)) \<rparr>"

definition defaults0 :: ParametersLexLSI where
  "defaults0 =
     \<lparr> max_number_of_factorizations = 200, tol_linear_dependence = 1 / 1000,
       tol_wrong_sign_lambda = 1 / 1000, tol_correct_sign_lambda = 1 / 1000,
       tol_feasibility = 1 / 1000, regularization_type = 0,
       max_number_of_CG_iterations = 10, variable_regularization_factor = 0,
       cycling_handling_enabled = False, cycling_max_counter = 50,
       cycling_relax_step = 1 / 1000, output_file_name = [] \<rparr>"

definition fresh1 :: "(ConstraintActivationType list list, nat) LexLSI" where
  "fresh1 =
     \<lparr> parameters = defaults0, nVar = 1, nObj = 1, nObjOffset = 0,
       nActivations = 0, nDeactivations = 0, nFactorizations = 0, nIterations = 0,
       x0_is_specified = False, step_length = 0, x = [0], dx = [0], nActive = [0],
       status = TERMINATION_STATUS_UNKNOWN, lexlse = [],
       objectives = [Objective_resize 1 1 GENERAL_OBJECTIVE],
       cycling_handler = 0 \<rparr>"

text \<open>
  \<open>fresh1\<close> is the solver for one variable and one general objective with one row, as
  the constructor leaves it; \<open>problem1\<close> has the row \<open>0 \<le> x \<le> 1\<close> set, and \<open>problem1_lb\<close>
  has this row in the initial working set, at its lower bound.
\<close>

definition problem1 :: "(ConstraintActivationType list list, nat) LexLSI" where
  "problem1 = snd (setData toy 0 [[1, 0, 1]] fresh1)"

definition problem1_lb :: "(ConstraintActivationType list list, nat) LexLSI" where
  "problem1_lb = snd (api_activate 0 0 CTR_ACTIVE_LB problem1)"

lemma fresh1_new: "LexLSI_new toy defaults0 1 1 [1] [GENERAL_OBJECTIVE] = Inr fresh1"
  by (simp add: LexLSI_new_def fresh1_def initialize_def toy_def Let_def)

section \<open>The bounds check of \<open>setData\<close>\<close>

text \<open>
  The bounds of row \<open>k\<close> as \<open>setData\<close> reads them, and the two tests of its loop: a row is
  an \<open>EQ_row\<close> when \<open>isEqual(bl, bu)\<close> holds, and a \<open>crossed_row\<close> when the loop throws at
  it (\<open>isEqual\<close> fails and \<open>bl > bu\<close>).
\<close>

definition bounds_of :: "dMatrixType \<Rightarrow> Index \<Rightarrow> Index \<Rightarrow> Index \<Rightarrow> (RealScalar \<times> RealScalar) option" where
  "bounds_of d lcol ucol k =
     (case (coeffRef d k lcol, coeffRef d k ucol) of
        (Some bl, Some bu) \<Rightarrow> Some (bl, bu)
      | _ \<Rightarrow> None)"

definition EQ_row :: "('l, 'c) backend \<Rightarrow> dMatrixType \<Rightarrow> Index \<Rightarrow> Index \<Rightarrow> Index \<Rightarrow> bool" where
  "EQ_row B d lcol ucol k =
     (case bounds_of d lcol ucol k of Some (bl, bu) \<Rightarrow> isEqual B bl bu | None \<Rightarrow> False)"

definition crossed_row :: "('l, 'c) backend \<Rightarrow> dMatrixType \<Rightarrow> Index \<Rightarrow> Index \<Rightarrow> Index \<Rightarrow> bool" where
  "crossed_row B d lcol ucol k =
     (case bounds_of d lcol ucol k of
        Some (bl, bu) \<Rightarrow> \<not> isEqual B bl bu \<and> bl > bu | None \<Rightarrow> False)"

lemma check_bounds_Cons:
  "check_bounds B oi d lc uc msg (k # rest) s =
     (case bounds_of d lc uc k of
        None \<Rightarrow> (Some OutOfRange, s)
      | Some (bl, bu) \<Rightarrow>
          if isEqual B bl bu then
            (case activate oi k CTR_ACTIVE_EQ False s of
               (Some e, s') \<Rightarrow> (Some e, s')
             | (None, s') \<Rightarrow> check_bounds B oi d lc uc msg rest s')
          else if bl > bu then (Some (Exception msg), s)
          else check_bounds B oi d lc uc msg rest s)"
  by (simp add: bounds_of_def split: option.splits)

definition set_working_set ::
  "Index \<Rightarrow> ConstraintActivationType list \<times> Index list \<Rightarrow> ('l, 'c) LexLSI \<Rightarrow> ('l, 'c) LexLSI" where
  "set_working_set oi ws s =
     s\<lparr> objectives :=
          (objectives s)[oi := (objectives s ! oi)\<lparr> CtrType := fst ws, active := snd ws \<rparr>] \<rparr>"

lemma set_working_set_same:
  "set_working_set oi (CtrType (objectives s ! oi), active (objectives s ! oi)) s = s"
  by (simp add: set_working_set_def)

lemma set_working_set_twice [simp]:
  "set_working_set oi ws (set_working_set oi ws' s) = set_working_set oi ws s"
  by (cases "oi < length (objectives s)") (simp_all add: set_working_set_def list_update_beyond)

lemma set_working_set_ex: "\<exists>ws. s = set_working_set oi ws s"
  by (rule exI [of _ "(CtrType (objectives s ! oi), active (objectives s ! oi))"])
     (simp add: set_working_set_same)

lemma activate_uncounted_state:
  "\<exists>ws. snd (activate oi k t False s) = set_working_set oi ws s"
proof (cases "fst (activate oi k t False s)")
  case None
  then obtain s' where a: "activate oi k t False s = (None, s')" by (cases "activate oi k t False s") auto
  from activate_cases [OF a] obtain obj where
    o: "Objective_activate k t (objectives s ! oi) = Inr obj"
    and s': "s' = s\<lparr> objectives := (objectives s)[oi := obj], nActivations := nActivations s \<rparr>"
    by auto
  from o have "obj = (objectives s ! oi)\<lparr> CtrType := CtrType obj, active := active obj \<rparr>"
    by (auto simp: Objective_activate_def split: if_splits)
  with s' a show ?thesis
    by (intro exI [of _ "(CtrType obj, active obj)"]) (simp add: set_working_set_def)
next
  case (Some e)
  then obtain s' where a: "activate oi k t False s = (Some e, s')" by (cases "activate oi k t False s") auto
  from activate_cases [OF a] have "s' = s" by auto
  with a show ?thesis
    using set_working_set_ex [of s oi] by simp
qed

declare check_bounds.simps(2) [simp del]

lemma check_bounds_state:
  "\<exists>ws. snd (check_bounds B oi d lc uc msg rows s) = set_working_set oi ws s"
proof (induction rows arbitrary: s)
  case Nil
  show ?case using set_working_set_ex [of s oi] by simp
next
  case (Cons k rest)
  show ?case
  proof (cases "bounds_of d lc uc k")
    case None
    then show ?thesis using set_working_set_ex [of s oi] by (simp add: check_bounds_Cons)
  next
    case (Some p)
    obtain bl bu where p: "p = (bl, bu)" by (cases p)
    show ?thesis
    proof (cases "isEqual B bl bu")
      case True
      obtain r s' where a: "activate oi k CTR_ACTIVE_EQ False s = (r, s')"
        by (cases "activate oi k CTR_ACTIVE_EQ False s")
      obtain ws where ws: "s' = set_working_set oi ws s"
        using activate_uncounted_state [of oi k CTR_ACTIVE_EQ s] a by auto
      show ?thesis
      proof (cases r)
        case None
        obtain ws' where "snd (check_bounds B oi d lc uc msg rest s') = set_working_set oi ws' s'"
          using Cons.IH by blast
        with None a ws Some p True
        have "snd (check_bounds B oi d lc uc msg (k # rest) s) = set_working_set oi ws' s"
          by (simp add: check_bounds_Cons)
        then show ?thesis ..
      next
        case (Some e)
        with a ws \<open>bounds_of d lc uc k = Some p\<close> p True
        have "snd (check_bounds B oi d lc uc msg (k # rest) s) = set_working_set oi ws s"
          by (simp add: check_bounds_Cons)
        then show ?thesis ..
      qed
    next
      case False
      obtain ws' where "snd (check_bounds B oi d lc uc msg rest s) = set_working_set oi ws' s"
        using Cons.IH by blast
      moreover obtain ws0 where "s = set_working_set oi ws0 s"
        using set_working_set_ex by blast
      ultimately have "snd (check_bounds B oi d lc uc msg (k # rest) s) = set_working_set oi ws' s
          \<or> snd (check_bounds B oi d lc uc msg (k # rest) s) = set_working_set oi ws0 s"
        using False Some p by (simp add: check_bounds_Cons)
      then show ?thesis by (elim disjE) (rule exI, assumption)+
    qed
  qed
qed


lemma activate_None:
  assumes "activate oi k t c s = (None, s')"
  shows "oi < nObj s" and "oi < length (objectives s)"
    and "k < length (CtrType (objectives s ! oi))"
    and "CtrType (objectives s ! oi) ! k = CTR_INACTIVE"
    and "s' = s\<lparr> objectives := (objectives s)[oi := (objectives s ! oi)
              \<lparr> CtrType := (CtrType (objectives s ! oi))[k := t],
                active := active (objectives s ! oi) @ [k] \<rparr>],
            nActivations := (if c then nActivations s + 1 else nActivations s) \<rparr>"
  using assms
  by (auto simp: activate_def Objective_activate_def split: if_splits)

lemma activate_succeeds:
  assumes "oi < nObj s" "oi < length (objectives s)"
    and "k < length (CtrType (objectives s ! oi))"
    and "CtrType (objectives s ! oi) ! k = CTR_INACTIVE"
  shows "fst (activate oi k t c s) = None"
  using assms by (simp add: activate_def Objective_activate_def)

lemma activate_error_InvalidInput:
  assumes "activate oi k t c s = (Some e, s')"
    and "oi < length (objectives s)" "k < length (CtrType (objectives s ! oi))"
  shows "InvalidInput e"
  using assms by (auto simp: activate_def Objective_activate_def split: if_splits)

text \<open>The working set of objective \<open>oi\<close> only grows while the bounds are checked.\<close>

definition grows :: "Index list \<Rightarrow> Objective \<Rightarrow> Objective \<Rightarrow> bool" where
  "grows rows obj obj' \<longleftrightarrow>
     length (CtrType obj') = length (CtrType obj) \<and>
     (\<forall>j. CtrType obj ! j \<noteq> CTR_INACTIVE \<longrightarrow> CtrType obj' ! j = CtrType obj ! j) \<and>
     (\<forall>j. j \<notin> set rows \<longrightarrow> CtrType obj' ! j = CtrType obj ! j) \<and>
     set (active obj) \<subseteq> set (active obj')"

lemma grows_refl: "grows rows obj obj"
  by (simp add: grows_def)

lemma grows_trans:
  "grows [k] obj obj' \<Longrightarrow> grows rest obj' obj'' \<Longrightarrow> grows (k # rest) obj obj''"
  by (auto simp: grows_def)

lemma grows_weaken: "grows rest obj obj' \<Longrightarrow> grows (k # rest) obj obj'"
  by (auto simp: grows_def)

lemma activate_grows:
  assumes "activate oi k t c s = (None, s')"
  shows "grows [k] (objectives s ! oi) (objectives s' ! oi)"
    and "nObj s' = nObj s" and "length (objectives s') = length (objectives s)"
  using activate_None [OF assms]
  by (auto simp: grows_def nth_list_update)

lemma check_bounds_grows:
  "check_bounds B oi d lc uc msg rows s = (r, s') \<Longrightarrow>
     grows rows (objectives s ! oi) (objectives s' ! oi) \<and> nObj s' = nObj s \<and>
     length (objectives s') = length (objectives s)"
proof (induction rows arbitrary: s)
  case Nil
  then show ?case by (simp add: grows_refl)
next
  case (Cons k rest)
  show ?case
  proof (cases "bounds_of d lc uc k")
    case None
    with Cons.prems show ?thesis by (simp add: check_bounds_Cons grows_refl)
  next
    case (Some p)
    obtain bl bu where p: "p = (bl, bu)" by (cases p)
    show ?thesis
    proof (cases "isEqual B bl bu")
      case True
      obtain r1 s1 where a: "activate oi k CTR_ACTIVE_EQ False s = (r1, s1)"
        by (cases "activate oi k CTR_ACTIVE_EQ False s")
      show ?thesis
      proof (cases r1)
        case None
        with Cons.prems Some p True a
        have "check_bounds B oi d lc uc msg rest s1 = (r, s')"
          by (simp add: check_bounds_Cons)
        from Cons.IH [OF this] activate_grows [OF a [unfolded None]]
        show ?thesis by (auto intro: grows_trans)
      next
        case (Some e)
        with a activate_cases [OF a] have "s1 = s" by auto
        with Cons.prems \<open>bounds_of d lc uc k = Some p\<close> p True a Some
        show ?thesis by (simp add: check_bounds_Cons grows_refl)
      qed
    next
      case False
      show ?thesis
      proof (cases "bl > bu")
        case True
        with Cons.prems Some p False show ?thesis by (simp add: check_bounds_Cons grows_refl)
      next
        case nb: False
        with Cons.prems Some p False
        have "check_bounds B oi d lc uc msg rest s = (r, s')"
          by (simp add: check_bounds_Cons)
        from Cons.IH [OF this] show ?thesis by (auto intro: grows_weaken)
      qed
    qed
  qed
qed


lemma check_bounds_success:
  "check_bounds B oi d lc uc msg rows s = (None, s') \<Longrightarrow> k \<in> set rows \<Longrightarrow>
     bounds_of d lc uc k \<noteq> None \<and> \<not> crossed_row B d lc uc k \<and>
     (EQ_row B d lc uc k \<longrightarrow>
        CtrType (objectives s' ! oi) ! k = CTR_ACTIVE_EQ \<and> k \<in> set (active (objectives s' ! oi)))"
proof (induction rows arbitrary: s)
  case Nil
  then show ?case by simp
next
  case (Cons k0 rest)
  from Cons.prems(1) obtain bl bu where b: "bounds_of d lc uc k0 = Some (bl, bu)"
    by (cases "bounds_of d lc uc k0") (auto simp: check_bounds_Cons)
  show ?case
  proof (cases "isEqual B bl bu")
    case True
    obtain r1 s1 where a: "activate oi k0 CTR_ACTIVE_EQ False s = (r1, s1)"
      by (cases "activate oi k0 CTR_ACTIVE_EQ False s")
    from Cons.prems(1) b True a have r1: "r1 = None"
      and rest: "check_bounds B oi d lc uc msg rest s1 = (None, s')"
      by (auto simp: check_bounds_Cons split: option.splits)
    note n = activate_None [OF a [unfolded r1]]
    have s1: "CtrType (objectives s1 ! oi) ! k0 = CTR_ACTIVE_EQ"
      "k0 \<in> set (active (objectives s1 ! oi))"
      using n by simp_all
    from check_bounds_grows [OF rest] have g: "grows rest (objectives s1 ! oi) (objectives s' ! oi)"
      by simp
    have k0: "CtrType (objectives s' ! oi) ! k0 = CTR_ACTIVE_EQ \<and>
        k0 \<in> set (active (objectives s' ! oi))"
      using g s1 by (auto simp: grows_def)
    show ?thesis
    proof (cases "k = k0")
      case True
      with k0 b \<open>isEqual B bl bu\<close> show ?thesis by (simp add: crossed_row_def EQ_row_def)
    next
      case False
      with Cons.prems(2) have "k \<in> set rest" by simp
      from Cons.IH [OF rest this] show ?thesis .
    qed
  next
    case False
    from Cons.prems(1) b False have nb: "\<not> bl > bu"
      and rest: "check_bounds B oi d lc uc msg rest s = (None, s')"
      by (auto simp: check_bounds_Cons split: if_splits)
    show ?thesis
    proof (cases "k = k0")
      case True
      with b False nb show ?thesis by (simp add: crossed_row_def EQ_row_def)
    next
      case nk: False
      with Cons.prems(2) have "k \<in> set rest" by simp
      from Cons.IH [OF rest this] show ?thesis .
    qed
  qed
qed

lemma check_bounds_crossed:
  assumes "\<exists>k \<in> set rows. crossed_row B d lc uc k"
    and "\<forall>k \<in> set rows. bounds_of d lc uc k \<noteq> None \<and> k < length (CtrType (objectives s ! oi))"
    and "oi < length (objectives s)"
  shows "\<exists>e. fst (check_bounds B oi d lc uc msg rows s) = Some e \<and> InvalidInput e"
  using assms
proof (induction rows arbitrary: s)
  case Nil
  then show ?case by simp
next
  case (Cons k0 rest)
  from Cons.prems(2) obtain bl bu where b: "bounds_of d lc uc k0 = Some (bl, bu)"
    by (cases "bounds_of d lc uc k0") auto
  show ?case
  proof (cases "isEqual B bl bu")
    case True
    then have nc: "\<not> crossed_row B d lc uc k0" using b by (simp add: crossed_row_def)
    obtain r1 s1 where a: "activate oi k0 CTR_ACTIVE_EQ False s = (r1, s1)"
      by (cases "activate oi k0 CTR_ACTIVE_EQ False s")
    show ?thesis
    proof (cases r1)
      case None
      note g = activate_grows [OF a [unfolded None]]
      have "\<exists>e. fst (check_bounds B oi d lc uc msg rest s1) = Some e \<and> InvalidInput e"
      proof (rule Cons.IH)
        show "\<exists>k\<in>set rest. crossed_row B d lc uc k" using Cons.prems(1) nc by auto
        show "\<forall>k\<in>set rest. bounds_of d lc uc k \<noteq> None \<and> k < length (CtrType (objectives s1 ! oi))"
          using Cons.prems(2) g by (auto simp: grows_def)
        show "oi < length (objectives s1)" using Cons.prems(3) g by simp
      qed
      with b True a None show ?thesis by (simp add: check_bounds_Cons)
    next
      case (Some e)
      from activate_error_InvalidInput [OF a [unfolded Some]] Cons.prems
      have "InvalidInput e" by simp
      with b True a Some show ?thesis by (simp add: check_bounds_Cons)
    qed
  next
    case False
    show ?thesis
    proof (cases "bl > bu")
      case True
      with b False show ?thesis by (simp add: check_bounds_Cons)
    next
      case nb: False
      then have nc: "\<not> crossed_row B d lc uc k0" using b by (simp add: crossed_row_def)
      have "\<exists>e. fst (check_bounds B oi d lc uc msg rest s) = Some e \<and> InvalidInput e"
      proof (rule Cons.IH)
        show "\<exists>k\<in>set rest. crossed_row B d lc uc k" using Cons.prems(1) nc by auto
        show "\<forall>k\<in>set rest. bounds_of d lc uc k \<noteq> None \<and> k < length (CtrType (objectives s ! oi))"
          using Cons.prems(2) by auto
        show "oi < length (objectives s)" using Cons.prems(3) .
      qed
      with b False nb show ?thesis by (simp add: check_bounds_Cons)
    qed
  qed
qed

lemma check_bounds_first_crossed:
  assumes "\<forall>j \<in> set pre. bounds_of d lc uc j \<noteq> None \<and> \<not> crossed_row B d lc uc j"
    and "crossed_row B d lc uc k"
    and "\<forall>j \<in> set pre. EQ_row B d lc uc j \<longrightarrow>
           j < length (CtrType (objectives s ! oi)) \<and> CtrType (objectives s ! oi) ! j = CTR_INACTIVE"
    and "distinct pre" and "oi < nObj s" and "oi < length (objectives s)"
  shows "fst (check_bounds B oi d lc uc msg (pre @ k # post) s) = Some (Exception msg) \<and>
         (\<forall>j \<in> set pre. EQ_row B d lc uc j \<longrightarrow>
            CtrType (objectives (snd (check_bounds B oi d lc uc msg (pre @ k # post) s)) ! oi) ! j
              = CTR_ACTIVE_EQ \<and>
            j \<in> set (active (objectives (snd (check_bounds B oi d lc uc msg (pre @ k # post) s)) ! oi)))"
  using assms
proof (induction pre arbitrary: s)
  case Nil
  from Nil.prems(2) obtain bl bu where "bounds_of d lc uc k = Some (bl, bu)"
    "\<not> isEqual B bl bu" "bl > bu"
    by (auto simp: crossed_row_def split: option.splits)
  then show ?case by (simp add: check_bounds_Cons)
next
  case (Cons j0 pre)
  let ?rows = "pre @ k # post"
  from Cons.prems(1) obtain bl bu where b: "bounds_of d lc uc j0 = Some (bl, bu)"
    by (cases "bounds_of d lc uc j0") auto
  from Cons.prems(1) b have nc: "isEqual B bl bu \<or> \<not> bl > bu"
    by (auto simp: crossed_row_def)
  show ?case
  proof (cases "isEqual B bl bu")
    case True
    then have eq: "EQ_row B d lc uc j0" using b by (simp add: EQ_row_def)
    with Cons.prems(3) have j0: "j0 < length (CtrType (objectives s ! oi))"
      "CtrType (objectives s ! oi) ! j0 = CTR_INACTIVE" by auto
    obtain s1 where a: "activate oi j0 CTR_ACTIVE_EQ False s = (None, s1)"
      using activate_succeeds [OF Cons.prems(5,6) j0, of CTR_ACTIVE_EQ False]
      by (cases "activate oi j0 CTR_ACTIVE_EQ False s") auto
    note n = activate_None [OF a]
    have step: "check_bounds B oi d lc uc msg ((j0 # pre) @ k # post) s
        = check_bounds B oi d lc uc msg ?rows s1"
      using b True a by (simp add: check_bounds_Cons)
    have IH: "fst (check_bounds B oi d lc uc msg ?rows s1) = Some (Exception msg) \<and>
         (\<forall>j \<in> set pre. EQ_row B d lc uc j \<longrightarrow>
            CtrType (objectives (snd (check_bounds B oi d lc uc msg ?rows s1)) ! oi) ! j
              = CTR_ACTIVE_EQ \<and>
            j \<in> set (active (objectives (snd (check_bounds B oi d lc uc msg ?rows s1)) ! oi)))"
    proof (rule Cons.IH)
      show "\<forall>j\<in>set pre. bounds_of d lc uc j \<noteq> None \<and> \<not> crossed_row B d lc uc j"
        using Cons.prems(1) by simp
      show "crossed_row B d lc uc k" using Cons.prems(2) .
      show "\<forall>j\<in>set pre. EQ_row B d lc uc j \<longrightarrow>
          j < length (CtrType (objectives s1 ! oi)) \<and> CtrType (objectives s1 ! oi) ! j = CTR_INACTIVE"
        using Cons.prems(3,4) n by (auto simp: nth_list_update)
      show "distinct pre" using Cons.prems(4) by simp
      show "oi < nObj s1" using n by simp
      show "oi < length (objectives s1)" using n by simp
    qed
    obtain r s' where cb: "check_bounds B oi d lc uc msg ?rows s1 = (r, s')"
      by (cases "check_bounds B oi d lc uc msg ?rows s1")
    from check_bounds_grows [OF cb] have g: "grows ?rows (objectives s1 ! oi) (objectives s' ! oi)"
      by simp
    have "CtrType (objectives s1 ! oi) ! j0 = CTR_ACTIVE_EQ" "j0 \<in> set (active (objectives s1 ! oi))"
      using n by simp_all
    with g have "CtrType (objectives s' ! oi) ! j0 = CTR_ACTIVE_EQ \<and>
        j0 \<in> set (active (objectives s' ! oi))"
      by (auto simp: grows_def)
    with IH cb step show ?thesis by simp
  next
    case False
    with nc have nb: "\<not> bl > bu" by simp
    have neq: "\<not> EQ_row B d lc uc j0" using b False by (simp add: EQ_row_def)
    have step: "check_bounds B oi d lc uc msg ((j0 # pre) @ k # post) s
        = check_bounds B oi d lc uc msg ?rows s"
      using b False nb by (simp add: check_bounds_Cons)
    have IH: "fst (check_bounds B oi d lc uc msg ?rows s) = Some (Exception msg) \<and>
         (\<forall>j \<in> set pre. EQ_row B d lc uc j \<longrightarrow>
            CtrType (objectives (snd (check_bounds B oi d lc uc msg ?rows s)) ! oi) ! j
              = CTR_ACTIVE_EQ \<and>
            j \<in> set (active (objectives (snd (check_bounds B oi d lc uc msg ?rows s)) ! oi)))"
    proof (rule Cons.IH)
      show "\<forall>j\<in>set pre. bounds_of d lc uc j \<noteq> None \<and> \<not> crossed_row B d lc uc j"
        using Cons.prems(1) by simp
      show "crossed_row B d lc uc k" using Cons.prems(2) .
      show "\<forall>j\<in>set pre. EQ_row B d lc uc j \<longrightarrow>
          j < length (CtrType (objectives s ! oi)) \<and> CtrType (objectives s ! oi) ! j = CTR_INACTIVE"
        using Cons.prems(3) by simp
      show "distinct pre" using Cons.prems(4) by simp
      show "oi < nObj s" using Cons.prems(5) .
      show "oi < length (objectives s)" using Cons.prems(6) .
    qed
    with step neq show ?thesis by simp
  qed
qed

text \<open>
  The shape that the constructor gives the object and that every member function keeps:
  \<open>nObj\<close> objectives, each with one activation type per row.
\<close>

definition well_formed :: "('l, 'c) LexLSI \<Rightarrow> bool" where
  "well_formed s \<longleftrightarrow>
     length (objectives s) = nObj s \<and>
     (\<forall>obj \<in> set (objectives s). length (CtrType obj) = ObjDim obj)"

lemma LexLSI_new_well_formed:
  "LexLSI_new B defaults n m ObjDim0 ObjType0 = Inr s \<Longrightarrow> well_formed s"
  by (auto simp: LexLSI_new_def well_formed_def initialize_def Objective_resize_def Let_def
      split: if_splits)

lemma set_working_set_fields [simp]:
  "nActivations (set_working_set oi ws s) = nActivations s"
  "nDeactivations (set_working_set oi ws s) = nDeactivations s"
  "nObj (set_working_set oi ws s) = nObj s"
  "nVar (set_working_set oi ws s) = nVar s"
  "length (objectives (set_working_set oi ws s)) = length (objectives s)"
  "data (objectives (set_working_set oi ws s) ! i) = data (objectives s ! i)"
  "VarIndex (objectives (set_working_set oi ws s) ! i) = VarIndex (objectives s ! i)"
  "ObjDim (objectives (set_working_set oi ws s) ! i) = ObjDim (objectives s ! i)"
  by (cases "oi < length (objectives s)"; cases "i = oi";
      simp add: set_working_set_def list_update_beyond nth_list_update)+

lemma check_bounds_error_InvalidInput:
  assumes "check_bounds B oi d lc uc msg rows s = (Some e, s')"
    and "\<forall>k \<in> set rows. bounds_of d lc uc k \<noteq> None \<and> k < length (CtrType (objectives s ! oi))"
    and "oi < length (objectives s)"
  shows "InvalidInput e"
  using assms
proof (induction rows arbitrary: s)
  case Nil
  then show ?case by simp
next
  case (Cons k0 rest)
  from Cons.prems(2) obtain bl bu where b: "bounds_of d lc uc k0 = Some (bl, bu)"
    by (cases "bounds_of d lc uc k0") auto
  show ?case
  proof (cases "isEqual B bl bu")
    case True
    obtain r1 s1 where a: "activate oi k0 CTR_ACTIVE_EQ False s = (r1, s1)"
      by (cases "activate oi k0 CTR_ACTIVE_EQ False s")
    show ?thesis
    proof (cases r1)
      case None
      note g = activate_grows [OF a [unfolded None]]
      show ?thesis
      proof (rule Cons.IH)
        show "check_bounds B oi d lc uc msg rest s1 = (Some e, s')"
          using Cons.prems(1) b True a None by (simp add: check_bounds_Cons)
        show "\<forall>k\<in>set rest. bounds_of d lc uc k \<noteq> None \<and> k < length (CtrType (objectives s1 ! oi))"
          using Cons.prems(2) g by (auto simp: grows_def)
        show "oi < length (objectives s1)" using Cons.prems(3) g by simp
      qed
    next
      case (Some e1)
      from activate_error_InvalidInput [OF a [unfolded Some]] Cons.prems
      have "InvalidInput e1" by simp
      with Cons.prems(1) b True a Some show ?thesis by (simp add: check_bounds_Cons)
    qed
  next
    case False
    show ?thesis
    proof (cases "bl > bu")
      case True
      with Cons.prems(1) b False show ?thesis by (auto simp: check_bounds_Cons)
    next
      case nb: False
      show ?thesis
      proof (rule Cons.IH)
        show "check_bounds B oi d lc uc msg rest s = (Some e, s')"
          using Cons.prems(1) b False nb by (simp add: check_bounds_Cons)
        show "\<forall>k\<in>set rest. bounds_of d lc uc k \<noteq> None \<and> k < length (CtrType (objectives s ! oi))"
          using Cons.prems(2) by auto
        show "oi < length (objectives s)" using Cons.prems(3) .
      qed
    qed
  qed
qed

lemma setData_success:
  assumes "setData B ObjIndex d s = (None, s')"
  shows "nActivations s' = nActivations s \<and>
     (\<forall>k < length d. EQ_row B d (nVar s) (nVar s + 1) k \<longrightarrow>
        CtrType (objectives s' ! ObjIndex) ! k = CTR_ACTIVE_EQ \<and>
        k \<in> set (active (objectives s' ! ObjIndex)))"
proof -
  let ?msg = "''(general) Lower bound is greater than upper bound.''"
  from assms have in_range: "ObjIndex < length (objectives s)"
    and dim: "getDim (objectives s ! ObjIndex) = length d"
    by (auto simp: setData_def split: if_splits)
  from assms obtain s1 where
    cb: "check_bounds B ObjIndex d (nVar s) (nVar s + 1) ?msg [0..<length d] s = (None, s1)"
    and s': "s' = s1\<lparr> objectives :=
               (objectives s1)[ObjIndex := Objective_setData d (objectives s1 ! ObjIndex)] \<rparr>"
    by (auto simp: setData_def split: if_splits prod.splits option.splits)
  obtain ws where ws: "s1 = set_working_set ObjIndex ws s"
    using check_bounds_state [of B ObjIndex d "nVar s" "nVar s + 1" ?msg "[0..<length d]" s] cb
    by auto
  have len: "ObjIndex < length (objectives s1)" using ws in_range by simp
  have "nActivations s' = nActivations s" using s' ws by simp
  moreover have "CtrType (objectives s' ! ObjIndex) = CtrType (objectives s1 ! ObjIndex)"
    "active (objectives s' ! ObjIndex) = active (objectives s1 ! ObjIndex)"
    using s' len by (simp_all add: Objective_setData_def)
  ultimately show ?thesis
    using check_bounds_success [OF cb] by auto
qed

lemma setData_simple_success:
  assumes "setData_simple B ObjIndex VI d s = (None, s')"
  shows "nActivations s' = nActivations s \<and>
     (\<forall>k < length d. EQ_row B d 0 1 k \<longrightarrow>
        CtrType (objectives s' ! ObjIndex) ! k = CTR_ACTIVE_EQ \<and>
        k \<in> set (active (objectives s' ! ObjIndex)))"
proof -
  let ?msg = "''(simple) Lower bound is greater than upper bound.''"
  from assms have in_range: "ObjIndex < length (objectives s)"
    and dim: "getDim (objectives s ! ObjIndex) = length d"
    by (auto simp: setData_simple_def split: if_splits)
  from assms obtain s1 where
    cb: "check_bounds B ObjIndex d 0 1 ?msg [0..<length d] s = (None, s1)"
    and s': "s' = s1\<lparr> objectives :=
               (objectives s1)[ObjIndex := Objective_setData_simple VI d (objectives s1 ! ObjIndex)] \<rparr>"
    by (auto simp: setData_simple_def split: if_splits prod.splits option.splits)
  obtain ws where ws: "s1 = set_working_set ObjIndex ws s"
    using check_bounds_state [of B ObjIndex d 0 1 ?msg "[0..<length d]" s] cb
    by auto
  have len: "ObjIndex < length (objectives s1)" using ws in_range by simp
  have "nActivations s' = nActivations s" using s' ws by simp
  moreover have "CtrType (objectives s' ! ObjIndex) = CtrType (objectives s1 ! ObjIndex)"
    "active (objectives s' ! ObjIndex) = active (objectives s1 ! ObjIndex)"
    using s' len by (simp_all add: Objective_setData_simple_def)
  ultimately show ?thesis
    using check_bounds_success [OF cb] by auto
qed


lemma well_formed_nth:
  "well_formed s \<Longrightarrow> ObjIndex < nObj s \<Longrightarrow>
     ObjIndex < length (objectives s) \<and>
     length (CtrType (objectives s ! ObjIndex)) = getDim (objectives s ! ObjIndex)"
  by (simp add: well_formed_def getDim_def)

lemma setData_error:
  assumes "well_formed s"
    and "\<forall>k < length d. bounds_of d (nVar s) (nVar s + 1) k \<noteq> None"
    and "setData B ObjIndex d s = (Some e, s')"
  shows "InvalidInput e"
proof (cases "ObjIndex < nObj s \<and> getObjType (objectives s ! ObjIndex) = GENERAL_OBJECTIVE
    \<and> getDim (objectives s ! ObjIndex) = length d")
  case True
  note wf = well_formed_nth [OF assms(1), of ObjIndex]
  let ?msg = "''(general) Lower bound is greater than upper bound.''"
  from True wf assms(3)
  have "check_bounds B ObjIndex d (nVar s) (nVar s + 1) ?msg [0..<length d] s = (Some e, s')"
    by (auto simp: setData_def split: prod.splits option.splits)
  from check_bounds_error_InvalidInput [OF this] assms(2) True wf show ?thesis by simp
next
  case False
  with assms(1,3) show ?thesis
    by (auto simp: setData_def well_formed_def split: if_splits)
qed

lemma setData_simple_error:
  assumes "well_formed s"
    and "\<forall>k < length d. bounds_of d 0 1 k \<noteq> None"
    and "length d \<le> length VI"
    and "setData_simple B ObjIndex VI d s = (Some e, s')"
  shows "InvalidInput e"
proof (cases "ObjIndex < nObj s \<and> getObjType (objectives s ! ObjIndex) = SIMPLE_BOUNDS_OBJECTIVE
    \<and> getDim (objectives s ! ObjIndex) = length d")
  case True
  note wf = well_formed_nth [OF assms(1), of ObjIndex]
  let ?msg = "''(simple) Lower bound is greater than upper bound.''"
  obtain r s1 where cb: "check_bounds B ObjIndex d 0 1 ?msg [0..<length d] s = (r, s1)"
    by (cases "check_bounds B ObjIndex d 0 1 ?msg [0..<length d] s")
  show ?thesis
  proof (cases r)
    case None
    obtain ws where ws: "s1 = set_working_set ObjIndex ws s"
      using check_bounds_state [of B ObjIndex d 0 1 ?msg "[0..<length d]" s] cb by auto
    have "getDim (objectives s1 ! ObjIndex) = length d"
      using ws True by (simp add: getDim_def)
    with True wf assms(3,4) cb None show ?thesis
      by (auto simp: setData_simple_def split: if_splits)
  next
    case (Some e1)
    from check_bounds_error_InvalidInput [OF cb [unfolded Some]] assms(2) True wf
    have "InvalidInput e1" by simp
    with True wf assms(4) cb Some show ?thesis
      by (auto simp: setData_simple_def)
  qed
next
  case False
  with assms(1,4) show ?thesis
    by (auto simp: setData_simple_def well_formed_def split: if_splits)
qed

lemma setData_crossed:
  assumes "k < length d" and "crossed_row B d (nVar s) (nVar s + 1) k"
  shows "fst (setData B ObjIndex d s) \<noteq> None"
proof
  assume "fst (setData B ObjIndex d s) = None"
  then obtain s' where sd: "setData B ObjIndex d s = (None, s')"
    by (cases "setData B ObjIndex d s") auto
  let ?msg = "''(general) Lower bound is greater than upper bound.''"
  from sd obtain s1 where
    "check_bounds B ObjIndex d (nVar s) (nVar s + 1) ?msg [0..<length d] s = (None, s1)"
    by (auto simp: setData_def split: if_splits prod.splits option.splits)
  from check_bounds_success [OF this, of k] assms show False by simp
qed

lemma setData_simple_crossed:
  assumes "k < length d" and "crossed_row B d 0 1 k"
  shows "fst (setData_simple B ObjIndex VI d s) \<noteq> None"
proof
  assume "fst (setData_simple B ObjIndex VI d s) = None"
  then obtain s' where sd: "setData_simple B ObjIndex VI d s = (None, s')"
    by (cases "setData_simple B ObjIndex VI d s") auto
  let ?msg = "''(simple) Lower bound is greater than upper bound.''"
  from sd obtain s1 where
    "check_bounds B ObjIndex d 0 1 ?msg [0..<length d] s = (None, s1)"
    by (auto simp: setData_simple_def split: if_splits prod.splits option.splits)
  from check_bounds_success [OF this, of k] assms show False by simp
qed

lemma VarIndex_repeated_iff:
  "VarIndex_repeated VI p \<longleftrightarrow> (\<exists>k < p. \<exists>j < p. VI ! k = VI ! j \<and> j \<noteq> k)"
  unfolding VarIndex_repeated_def list_ex_iff by (simp add: Bex_def)

text \<open>When the bounds check, and with it \<open>setData\<close>, accepts the data.\<close>

lemma check_bounds_accepts:
  assumes "\<forall>j \<in> set rows. bounds_of d lc uc j \<noteq> None \<and> \<not> crossed_row B d lc uc j"
    and "\<forall>j \<in> set rows. EQ_row B d lc uc j \<longrightarrow>
           j < length (CtrType (objectives s ! oi)) \<and> CtrType (objectives s ! oi) ! j = CTR_INACTIVE"
    and "distinct rows" and "oi < nObj s" and "oi < length (objectives s)"
  shows "fst (check_bounds B oi d lc uc msg rows s) = None"
  using assms
proof (induction rows arbitrary: s)
  case Nil
  show ?case by simp
next
  case (Cons j0 rows)
  from Cons.prems(1) obtain bl bu where b: "bounds_of d lc uc j0 = Some (bl, bu)"
    by (cases "bounds_of d lc uc j0") auto
  from Cons.prems(1) b have nc: "isEqual B bl bu \<or> \<not> bl > bu"
    by (auto simp: crossed_row_def)
  show ?case
  proof (cases "isEqual B bl bu")
    case True
    then have eq: "EQ_row B d lc uc j0" using b by (simp add: EQ_row_def)
    with Cons.prems(2) have j0: "j0 < length (CtrType (objectives s ! oi))"
      "CtrType (objectives s ! oi) ! j0 = CTR_INACTIVE" by auto
    obtain s1 where a: "activate oi j0 CTR_ACTIVE_EQ False s = (None, s1)"
      using activate_succeeds [OF Cons.prems(4,5) j0, of CTR_ACTIVE_EQ False]
      by (cases "activate oi j0 CTR_ACTIVE_EQ False s") auto
    note n = activate_None [OF a]
    have step: "check_bounds B oi d lc uc msg (j0 # rows) s
        = check_bounds B oi d lc uc msg rows s1"
      using b True a by (simp add: check_bounds_Cons)
    have "fst (check_bounds B oi d lc uc msg rows s1) = None"
    proof (rule Cons.IH)
      show "\<forall>j\<in>set rows. bounds_of d lc uc j \<noteq> None \<and> \<not> crossed_row B d lc uc j"
        using Cons.prems(1) by simp
      show "\<forall>j\<in>set rows. EQ_row B d lc uc j \<longrightarrow>
          j < length (CtrType (objectives s1 ! oi)) \<and> CtrType (objectives s1 ! oi) ! j = CTR_INACTIVE"
        using Cons.prems(2,3) n by (auto simp: nth_list_update)
      show "distinct rows" using Cons.prems(3) by simp
      show "oi < nObj s1" using n by simp
      show "oi < length (objectives s1)" using n by simp
    qed
    with step show ?thesis by simp
  next
    case False
    with nc have nb: "\<not> bl > bu" by simp
    have step: "check_bounds B oi d lc uc msg (j0 # rows) s
        = check_bounds B oi d lc uc msg rows s"
      using b False nb by (simp add: check_bounds_Cons)
    have "fst (check_bounds B oi d lc uc msg rows s) = None"
    proof (rule Cons.IH)
      show "\<forall>j\<in>set rows. bounds_of d lc uc j \<noteq> None \<and> \<not> crossed_row B d lc uc j"
        using Cons.prems(1) by simp
      show "\<forall>j\<in>set rows. EQ_row B d lc uc j \<longrightarrow>
          j < length (CtrType (objectives s ! oi)) \<and> CtrType (objectives s ! oi) ! j = CTR_INACTIVE"
        using Cons.prems(2) by simp
      show "distinct rows" using Cons.prems(3) by simp
      show "oi < nObj s" using Cons.prems(4) .
      show "oi < length (objectives s)" using Cons.prems(5) .
    qed
    with step show ?thesis by simp
  qed
qed

lemma check_bounds_accepts_all:
  assumes wf: "well_formed s" and oi: "ObjIndex < nObj s"
    and dim: "getDim (objectives s ! ObjIndex) = length d"
    and rows: "\<forall>k < length d. bounds_of d lc uc k \<noteq> None \<and> \<not> crossed_row B d lc uc k \<and>
        (EQ_row B d lc uc k \<longrightarrow> CtrType (objectives s ! ObjIndex) ! k = CTR_INACTIVE)"
  shows "\<exists>s1. check_bounds B ObjIndex d lc uc msg [0..<length d] s = (None, s1) \<and>
     ObjIndex < length (objectives s1) \<and>
     getDim (objectives s1 ! ObjIndex) = length d"
proof -
  note w = well_formed_nth [OF wf oi]
  have "fst (check_bounds B ObjIndex d lc uc msg [0..<length d] s) = None"
  proof (rule check_bounds_accepts)
    show "\<forall>j\<in>set [0..<length d]. bounds_of d lc uc j \<noteq> None \<and> \<not> crossed_row B d lc uc j"
      using rows by simp
    show "\<forall>j\<in>set [0..<length d]. EQ_row B d lc uc j \<longrightarrow>
        j < length (CtrType (objectives s ! ObjIndex)) \<and>
        CtrType (objectives s ! ObjIndex) ! j = CTR_INACTIVE"
      using rows w dim by simp
    show "distinct [0..<length d]" by simp
    show "ObjIndex < nObj s" by (rule oi)
    show "ObjIndex < length (objectives s)" using w by simp
  qed
  then obtain s1 where cb: "check_bounds B ObjIndex d lc uc msg [0..<length d] s = (None, s1)"
    by (cases "check_bounds B ObjIndex d lc uc msg [0..<length d] s") simp
  obtain ws where ws: "s1 = set_working_set ObjIndex ws s"
    using check_bounds_state [of B ObjIndex d lc uc msg "[0..<length d]" s] cb by auto
  have "ObjIndex < length (objectives s1)" using ws w by simp
  moreover have "getDim (objectives s1 ! ObjIndex) = length d"
    using ws dim by (simp add: getDim_def)
  ultimately show ?thesis using cb by simp
qed

lemma setData_accepts:
  assumes wf: "well_formed s" and oi: "ObjIndex < nObj s"
    and ty: "getObjType (objectives s ! ObjIndex) = GENERAL_OBJECTIVE"
    and dim: "getDim (objectives s ! ObjIndex) = length d"
    and rows: "\<forall>k < length d. bounds_of d (nVar s) (nVar s + 1) k \<noteq> None \<and>
        \<not> crossed_row B d (nVar s) (nVar s + 1) k \<and>
        (EQ_row B d (nVar s) (nVar s + 1) k \<longrightarrow>
           CtrType (objectives s ! ObjIndex) ! k = CTR_INACTIVE)"
  shows "fst (setData B ObjIndex d s) = None \<and>
     data (objectives (snd (setData B ObjIndex d s)) ! ObjIndex) = d"
proof -
  let ?msg = "''(general) Lower bound is greater than upper bound.''"
  from check_bounds_accepts_all [OF wf oi dim rows, of ?msg]
  obtain s1 where cb: "check_bounds B ObjIndex d (nVar s) (nVar s + 1) ?msg [0..<length d] s
      = (None, s1)"
    and l: "ObjIndex < length (objectives s1)"
    by auto
  from cb oi ty dim well_formed_nth [OF wf oi]
  have "setData B ObjIndex d s = (None, s1\<lparr> objectives :=
      (objectives s1)[ObjIndex := Objective_setData d (objectives s1 ! ObjIndex)] \<rparr>)"
    by (simp add: setData_def)
  with l show ?thesis by (simp add: Objective_setData_def)
qed

lemma setData_simple_accepts:
  assumes wf: "well_formed s" and oi: "ObjIndex < nObj s"
    and ty: "getObjType (objectives s ! ObjIndex) = SIMPLE_BOUNDS_OBJECTIVE"
    and dim: "getDim (objectives s ! ObjIndex) = length d"
    and rows: "\<forall>k < length d. bounds_of d 0 1 k \<noteq> None \<and> \<not> crossed_row B d 0 1 k \<and>
        (EQ_row B d 0 1 k \<longrightarrow> CtrType (objectives s ! ObjIndex) ! k = CTR_INACTIVE)"
    and len: "length d \<le> length VI"
    and uniq: "\<forall>k < length d. \<forall>j < length d. VI ! k = VI ! j \<longrightarrow> j = k"
  shows "fst (setData_simple B ObjIndex VI d s) = None \<and>
     data (objectives (snd (setData_simple B ObjIndex VI d s)) ! ObjIndex) = d \<and>
     VarIndex (objectives (snd (setData_simple B ObjIndex VI d s)) ! ObjIndex)
       = take (length d) VI"
proof -
  let ?msg = "''(simple) Lower bound is greater than upper bound.''"
  from check_bounds_accepts_all [OF wf oi dim rows, of ?msg]
  obtain s1 where cb: "check_bounds B ObjIndex d 0 1 ?msg [0..<length d] s = (None, s1)"
    and l: "ObjIndex < length (objectives s1)"
    and d1: "getDim (objectives s1 ! ObjIndex) = length d"
    by auto
  from uniq have nr: "\<not> VarIndex_repeated VI (length d)"
    by (auto simp: VarIndex_repeated_iff)
  from cb oi ty dim well_formed_nth [OF wf oi] d1 len nr
  have "setData_simple B ObjIndex VI d s = (None, s1\<lparr> objectives :=
      (objectives s1)[ObjIndex := Objective_setData_simple VI d (objectives s1 ! ObjIndex)] \<rparr>)"
    by (simp add: setData_simple_def)
  with l d1 show ?thesis by (simp add: Objective_setData_simple_def getDim_def)
qed

lemma setData_simple_repeated:
  assumes "k < length d" "j < length d" "VI ! k = VI ! j" "j \<noteq> k"
  shows "fst (setData_simple B ObjIndex VI d s) \<noteq> None"
proof
  assume "fst (setData_simple B ObjIndex VI d s) = None"
  then obtain s' where sd: "setData_simple B ObjIndex VI d s = (None, s')"
    by (cases "setData_simple B ObjIndex VI d s") auto
  let ?msg = "''(simple) Lower bound is greater than upper bound.''"
  from sd have dim: "getDim (objectives s ! ObjIndex) = length d"
    by (auto simp: setData_simple_def split: if_splits)
  from sd obtain s1 where
    cb: "check_bounds B ObjIndex d 0 1 ?msg [0..<length d] s = (None, s1)"
    and nr: "\<not> VarIndex_repeated VI (getDim (objectives s1 ! ObjIndex))"
    by (auto simp: setData_simple_def split: if_splits prod.splits option.splits)
  obtain ws where ws: "s1 = set_working_set ObjIndex ws s"
    using check_bounds_state [of B ObjIndex d 0 1 ?msg "[0..<length d]" s] cb by auto
  have "getDim (objectives s1 ! ObjIndex) = length d"
    using ws dim by (simp add: getDim_def)
  with nr assms show False by (auto simp: VarIndex_repeated_iff)
qed

lemma setData_mismatch:
  assumes "well_formed s"
    and "ObjIndex \<ge> nObj s \<or> getDim (objectives s ! ObjIndex) \<noteq> length d"
  shows "\<exists>e. setData B ObjIndex d s = (Some e, s) \<and> InvalidInput e"
    and "\<exists>e. setData_simple B ObjIndex VI d s = (Some e, s) \<and> InvalidInput e"
  using assms by (auto simp: setData_def setData_simple_def well_formed_def)

text \<open>
  Two more solvers as the constructor leaves them: \<open>fresh2\<close> with one general objective
  of two rows, \<open>fresh_simple\<close> with two variables and one objective of two simple bounds.
\<close>

definition fresh2 :: "(ConstraintActivationType list list, nat) LexLSI" where
  "fresh2 =
     \<lparr> parameters = defaults0, nVar = 1, nObj = 1, nObjOffset = 0,
       nActivations = 0, nDeactivations = 0, nFactorizations = 0, nIterations = 0,
       x0_is_specified = False, step_length = 0, x = [0], dx = [0], nActive = [0],
       status = TERMINATION_STATUS_UNKNOWN, lexlse = [],
       objectives = [Objective_resize 2 1 GENERAL_OBJECTIVE],
       cycling_handler = 0 \<rparr>"

definition fresh_simple :: "(ConstraintActivationType list list, nat) LexLSI" where
  "fresh_simple =
     \<lparr> parameters = defaults0, nVar = 2, nObj = 1, nObjOffset = 1,
       nActivations = 0, nDeactivations = 0, nFactorizations = 0, nIterations = 0,
       x0_is_specified = False, step_length = 0, x = [0, 0], dx = [0, 0], nActive = [0],
       status = TERMINATION_STATUS_UNKNOWN, lexlse = [],
       objectives = [Objective_resize 2 2 SIMPLE_BOUNDS_OBJECTIVE],
       cycling_handler = 0 \<rparr>"

lemma fresh2_new: "LexLSI_new toy defaults0 1 1 [2] [GENERAL_OBJECTIVE] = Inr fresh2"
  by (simp add: LexLSI_new_def fresh2_def initialize_def toy_def Let_def)

lemma fresh_simple_new:
  "LexLSI_new toy defaults0 2 1 [2] [SIMPLE_BOUNDS_OBJECTIVE] = Inr fresh_simple"
  by (simp add: LexLSI_new_def fresh_simple_def initialize_def toy_def Let_def numeral_2_eq_2)

lemmas example_defs2 = fresh2_def fresh_simple_def well_formed_def
  EQ_row_def crossed_row_def

text \<open>The definitions that an example unfolds.\<close>

lemmas example_defs =
  example_defs2 toy_def defaults0_def fresh1_def problem1_def problem1_lb_def Objective_resize_def
  setData_def setData_simple_def check_bounds_Cons bounds_of_def coeffRef_def isEqual_def
  getObjType_def getDim_def activate_def deactivate_def Objective_activate_def
  Objective_deactivate_def api_activate_def isActive_def Objective_setData_def
  Objective_setData_simple_def VarIndex_repeated_def

section \<open>\<open>api_activate\<close> with a type that the user may not set\<close>

text \<open>
  C7 (as amended). \<open>api_activate(ObjIndex, CtrIndex, type)\<close> with a type other than
  \<open>CTR_ACTIVE_LB\<close> and \<open>CTR_ACTIVE_UB\<close> raises no exception: for indices in range it
  returns normally and leaves the whole object, so every working set and \<open>nActivations\<close>,
  as it was; it prints the warning when the row is inactive, and nothing when the row is
  already active.
\<close>

theorem api_activate_other_type:
  assumes "type \<noteq> CTR_ACTIVE_LB" and "type \<noteq> CTR_ACTIVE_UB"
  shows "api_activate ObjIndex CtrIndex type s =
     (if ObjIndex < length (objectives s) \<and> CtrIndex < length (CtrType (objectives s ! ObjIndex))
      then Inr (if CtrType (objectives s ! ObjIndex) ! CtrIndex = CTR_INACTIVE
                then [''WARNING: the user cannot define explicitly which constraints are of type CTR_ACTIVE_EQ '']
                else [])
      else Inl OutOfRange, s)"
  using assms by (simp add: api_activate_def isActive_def)

text \<open>An example: \<open>ACTIVE_EQ\<close> for a row that is active at its lower bound.\<close>

theorem api_activate_other_type_witness:
  "CTR_ACTIVE_EQ \<noteq> CTR_ACTIVE_LB \<and> CTR_ACTIVE_EQ \<noteq> CTR_ACTIVE_UB \<and>
   api_activate 0 0 CTR_ACTIVE_EQ problem1_lb = (Inr [], problem1_lb) \<and>
   CtrType (objectives problem1_lb ! 0) = [CTR_ACTIVE_LB]"
  using api_activate_other_type [of CTR_ACTIVE_EQ 0 0 problem1_lb]
  by (simp add: example_defs)

text \<open>
  C7 as stated ("rejected as an \<open>InvalidInput\<close> error") fails: the call returns normally,
  having printed the warning.
\<close>

theorem api_activate_EQ_counterexample:
  "api_activate 0 0 CTR_ACTIVE_EQ problem1 =
     (Inr [''WARNING: the user cannot define explicitly which constraints are of type CTR_ACTIVE_EQ ''],
      problem1)"
  by (simp add: example_defs)

section \<open>What \<open>setData\<close> validates\<close>

text \<open>
  C8 (as amended). For a well-formed solver and either \<open>setData\<close>:
  \<^item> when \<open>setData\<close> returns normally, every row whose bounds are equal within the
    tolerance of \<open>isEqual\<close> is \<open>ACTIVE_EQ\<close> and in the working set, and \<open>nActivations\<close> is
    as before;
  \<^item> a row whose lower bound exceeds its upper bound and is not equal to it within the
    tolerance makes \<open>setData\<close> raise an \<open>InvalidInput\<close> error (the data having the columns
    that are read);
  \<^item> for simple bounds, two equal entries among the first \<open>p\<close> of \<open>VarIndex\<close> raise an
    \<open>InvalidInput\<close> error;
  \<^item> an objective index out of range, or a row count of the data other than the
    objective's dimension, raises an \<open>InvalidInput\<close> error and changes nothing;
  \<^item> \<open>setData\<close> accepts the data (it returns normally and stores them, with the
    rows of equal bounds activated as above) when the objective is in range and of
    the type of the \<open>setData\<close> called, the row count is the objective's dimension,
    the bounds of every row can be read, no row has its lower bound above its upper
    bound beyond the tolerance, and the rows of equal bounds are still inactive; for
    simple bounds, when moreover the first \<open>p\<close> entries of \<open>VarIndex\<close> are distinct;
  \<^item> the test \<open>isEqual\<close> comes first: a row whose lower bound exceeds its upper bound
    by less than the tolerance is a row of equal bounds, not a refused one.
\<close>

theorem setData_validation:
  assumes "well_formed s"
  shows
    "(setData B ObjIndex d s = (None, s') \<longrightarrow>
        nActivations s' = nActivations s \<and>
        (\<forall>k < length d. EQ_row B d (nVar s) (nVar s + 1) k \<longrightarrow>
           CtrType (objectives s' ! ObjIndex) ! k = CTR_ACTIVE_EQ \<and>
           k \<in> set (active (objectives s' ! ObjIndex)))) \<and>
     (setData_simple B ObjIndex VI ds s = (None, s'') \<longrightarrow>
        nActivations s'' = nActivations s \<and>
        (\<forall>k < length ds. EQ_row B ds 0 1 k \<longrightarrow>
           CtrType (objectives s'' ! ObjIndex) ! k = CTR_ACTIVE_EQ \<and>
           k \<in> set (active (objectives s'' ! ObjIndex)))) \<and>
     ((\<exists>k < length d. crossed_row B d (nVar s) (nVar s + 1) k) \<and>
      (\<forall>k < length d. bounds_of d (nVar s) (nVar s + 1) k \<noteq> None) \<longrightarrow>
        (\<exists>e. fst (setData B ObjIndex d s) = Some e \<and> InvalidInput e)) \<and>
     ((\<exists>k < length ds. crossed_row B ds 0 1 k) \<and>
      (\<forall>k < length ds. bounds_of ds 0 1 k \<noteq> None) \<and> length ds \<le> length VI \<longrightarrow>
        (\<exists>e. fst (setData_simple B ObjIndex VI ds s) = Some e \<and> InvalidInput e)) \<and>
     ((\<exists>k < length ds. \<exists>j < length ds. VI ! k = VI ! j \<and> j \<noteq> k) \<and>
      (\<forall>k < length ds. bounds_of ds 0 1 k \<noteq> None) \<and> length ds \<le> length VI \<longrightarrow>
        (\<exists>e. fst (setData_simple B ObjIndex VI ds s) = Some e \<and> InvalidInput e)) \<and>
     (ObjIndex \<ge> nObj s \<or> getDim (objectives s ! ObjIndex) \<noteq> length d \<longrightarrow>
        (\<exists>e. setData B ObjIndex d s = (Some e, s) \<and> InvalidInput e) \<and>
        (\<exists>e. setData_simple B ObjIndex VI d s = (Some e, s) \<and> InvalidInput e)) \<and>
     (ObjIndex < nObj s \<and> getObjType (objectives s ! ObjIndex) = GENERAL_OBJECTIVE \<and>
      getDim (objectives s ! ObjIndex) = length d \<and>
      (\<forall>k < length d. bounds_of d (nVar s) (nVar s + 1) k \<noteq> None \<and>
         \<not> crossed_row B d (nVar s) (nVar s + 1) k \<and>
         (EQ_row B d (nVar s) (nVar s + 1) k \<longrightarrow>
            CtrType (objectives s ! ObjIndex) ! k = CTR_INACTIVE)) \<longrightarrow>
        fst (setData B ObjIndex d s) = None \<and>
        data (objectives (snd (setData B ObjIndex d s)) ! ObjIndex) = d \<and>
        nActivations (snd (setData B ObjIndex d s)) = nActivations s \<and>
        (\<forall>k < length d. EQ_row B d (nVar s) (nVar s + 1) k \<longrightarrow>
           CtrType (objectives (snd (setData B ObjIndex d s)) ! ObjIndex) ! k = CTR_ACTIVE_EQ \<and>
           k \<in> set (active (objectives (snd (setData B ObjIndex d s)) ! ObjIndex)))) \<and>
     (ObjIndex < nObj s \<and> getObjType (objectives s ! ObjIndex) = SIMPLE_BOUNDS_OBJECTIVE \<and>
      getDim (objectives s ! ObjIndex) = length ds \<and>
      (\<forall>k < length ds. bounds_of ds 0 1 k \<noteq> None \<and> \<not> crossed_row B ds 0 1 k \<and>
         (EQ_row B ds 0 1 k \<longrightarrow> CtrType (objectives s ! ObjIndex) ! k = CTR_INACTIVE)) \<and>
      length ds \<le> length VI \<and>
      (\<forall>k < length ds. \<forall>j < length ds. VI ! k = VI ! j \<longrightarrow> j = k) \<longrightarrow>
        fst (setData_simple B ObjIndex VI ds s) = None \<and>
        data (objectives (snd (setData_simple B ObjIndex VI ds s)) ! ObjIndex) = ds \<and>
        VarIndex (objectives (snd (setData_simple B ObjIndex VI ds s)) ! ObjIndex)
          = take (length ds) VI \<and>
        nActivations (snd (setData_simple B ObjIndex VI ds s)) = nActivations s \<and>
        (\<forall>k < length ds. EQ_row B ds 0 1 k \<longrightarrow>
           CtrType (objectives (snd (setData_simple B ObjIndex VI ds s)) ! ObjIndex) ! k
             = CTR_ACTIVE_EQ \<and>
           k \<in> set (active (objectives (snd (setData_simple B ObjIndex VI ds s)) ! ObjIndex)))) \<and>
     (bounds_of d lc uc k = Some (bl, bu) \<and> bu < bl \<and> isEqual B bl bu \<longrightarrow>
        EQ_row B d lc uc k \<and> \<not> crossed_row B d lc uc k)"
proof (intro conjI impI)
  assume a: "ObjIndex < nObj s \<and> getObjType (objectives s ! ObjIndex) = GENERAL_OBJECTIVE \<and>
      getDim (objectives s ! ObjIndex) = length d \<and>
      (\<forall>k < length d. bounds_of d (nVar s) (nVar s + 1) k \<noteq> None \<and>
         \<not> crossed_row B d (nVar s) (nVar s + 1) k \<and>
         (EQ_row B d (nVar s) (nVar s + 1) k \<longrightarrow>
            CtrType (objectives s ! ObjIndex) ! k = CTR_INACTIVE))"
  then have acc: "fst (setData B ObjIndex d s) = None \<and>
      data (objectives (snd (setData B ObjIndex d s)) ! ObjIndex) = d"
    by (intro setData_accepts [OF assms]) simp_all
  then show "fst (setData B ObjIndex d s) = None"
    and "data (objectives (snd (setData B ObjIndex d s)) ! ObjIndex) = d"
    by simp_all
  from acc have "setData B ObjIndex d s = (None, snd (setData B ObjIndex d s))"
    by (metis prod.collapse)
  from setData_success [OF this]
  show "nActivations (snd (setData B ObjIndex d s)) = nActivations s"
    and "\<forall>k < length d. EQ_row B d (nVar s) (nVar s + 1) k \<longrightarrow>
           CtrType (objectives (snd (setData B ObjIndex d s)) ! ObjIndex) ! k = CTR_ACTIVE_EQ \<and>
           k \<in> set (active (objectives (snd (setData B ObjIndex d s)) ! ObjIndex))"
    by simp_all
next
  assume a: "ObjIndex < nObj s \<and> getObjType (objectives s ! ObjIndex) = SIMPLE_BOUNDS_OBJECTIVE \<and>
      getDim (objectives s ! ObjIndex) = length ds \<and>
      (\<forall>k < length ds. bounds_of ds 0 1 k \<noteq> None \<and> \<not> crossed_row B ds 0 1 k \<and>
         (EQ_row B ds 0 1 k \<longrightarrow> CtrType (objectives s ! ObjIndex) ! k = CTR_INACTIVE)) \<and>
      length ds \<le> length VI \<and>
      (\<forall>k < length ds. \<forall>j < length ds. VI ! k = VI ! j \<longrightarrow> j = k)"
  then have acc: "fst (setData_simple B ObjIndex VI ds s) = None \<and>
     data (objectives (snd (setData_simple B ObjIndex VI ds s)) ! ObjIndex) = ds \<and>
     VarIndex (objectives (snd (setData_simple B ObjIndex VI ds s)) ! ObjIndex)
       = take (length ds) VI"
    by (intro setData_simple_accepts [OF assms]) simp_all
  then show "fst (setData_simple B ObjIndex VI ds s) = None"
    and "data (objectives (snd (setData_simple B ObjIndex VI ds s)) ! ObjIndex) = ds"
    and "VarIndex (objectives (snd (setData_simple B ObjIndex VI ds s)) ! ObjIndex)
       = take (length ds) VI"
    by simp_all
  from acc have "setData_simple B ObjIndex VI ds s
      = (None, snd (setData_simple B ObjIndex VI ds s))"
    by (metis prod.collapse)
  from setData_simple_success [OF this]
  show "nActivations (snd (setData_simple B ObjIndex VI ds s)) = nActivations s"
    and "\<forall>k < length ds. EQ_row B ds 0 1 k \<longrightarrow>
           CtrType (objectives (snd (setData_simple B ObjIndex VI ds s)) ! ObjIndex) ! k
             = CTR_ACTIVE_EQ \<and>
           k \<in> set (active (objectives (snd (setData_simple B ObjIndex VI ds s)) ! ObjIndex))"
    by simp_all
next
  assume "bounds_of d lc uc k = Some (bl, bu) \<and> bu < bl \<and> isEqual B bl bu"
  then show "EQ_row B d lc uc k" and "\<not> crossed_row B d lc uc k"
    by (simp_all add: EQ_row_def crossed_row_def)
next
  assume "setData B ObjIndex d s = (None, s')"
  from setData_success [OF this]
  show "nActivations s' = nActivations s"
    and "\<forall>k < length d. EQ_row B d (nVar s) (nVar s + 1) k \<longrightarrow>
           CtrType (objectives s' ! ObjIndex) ! k = CTR_ACTIVE_EQ \<and>
           k \<in> set (active (objectives s' ! ObjIndex))"
    by simp_all
next
  assume "setData_simple B ObjIndex VI ds s = (None, s'')"
  from setData_simple_success [OF this]
  show "nActivations s'' = nActivations s"
    and "\<forall>k < length ds. EQ_row B ds 0 1 k \<longrightarrow>
           CtrType (objectives s'' ! ObjIndex) ! k = CTR_ACTIVE_EQ \<and>
           k \<in> set (active (objectives s'' ! ObjIndex))"
    by simp_all
next
  assume a: "(\<exists>k < length d. crossed_row B d (nVar s) (nVar s + 1) k) \<and>
      (\<forall>k < length d. bounds_of d (nVar s) (nVar s + 1) k \<noteq> None)"
  then obtain e s1 where sd: "setData B ObjIndex d s = (Some e, s1)"
    using setData_crossed [of _ d B s ObjIndex] by (cases "setData B ObjIndex d s") auto
  from setData_error [OF assms _ sd] a sd
  show "\<exists>e. fst (setData B ObjIndex d s) = Some e \<and> InvalidInput e" by simp
next
  assume a: "(\<exists>k < length ds. crossed_row B ds 0 1 k) \<and>
      (\<forall>k < length ds. bounds_of ds 0 1 k \<noteq> None) \<and> length ds \<le> length VI"
  then obtain e s1 where sd: "setData_simple B ObjIndex VI ds s = (Some e, s1)"
    using setData_simple_crossed [of _ ds B ObjIndex VI s]
    by (cases "setData_simple B ObjIndex VI ds s") auto
  from setData_simple_error [OF assms _ _ sd] a sd
  show "\<exists>e. fst (setData_simple B ObjIndex VI ds s) = Some e \<and> InvalidInput e" by simp
next
  assume a: "(\<exists>k < length ds. \<exists>j < length ds. VI ! k = VI ! j \<and> j \<noteq> k) \<and>
      (\<forall>k < length ds. bounds_of ds 0 1 k \<noteq> None) \<and> length ds \<le> length VI"
  then obtain e s1 where sd: "setData_simple B ObjIndex VI ds s = (Some e, s1)"
    using setData_simple_repeated [of _ ds _ VI B ObjIndex s]
    by (cases "setData_simple B ObjIndex VI ds s") auto
  from setData_simple_error [OF assms _ _ sd] a sd
  show "\<exists>e. fst (setData_simple B ObjIndex VI ds s) = Some e \<and> InvalidInput e" by simp
next
  assume a: "ObjIndex \<ge> nObj s \<or> getDim (objectives s ! ObjIndex) \<noteq> length d"
  from setData_mismatch [OF assms a]
  show "\<exists>e. setData B ObjIndex d s = (Some e, s) \<and> InvalidInput e"
    and "\<exists>e. setData_simple B ObjIndex VI d s = (Some e, s) \<and> InvalidInput e"
    by simp_all
qed

text \<open>
  Examples: a row \<open>2 \<le> a x \<le> 2\<close> is activated as \<open>EQ\<close>, for a general objective and for
  simple bounds; a row \<open>1 \<le> a x \<le> 0\<close> is refused, as are the indices \<open>[1, 1]\<close> and two
  rows of data for an objective of one row. The rows \<open>1/2000 \<le> a x \<le> 0\<close> and
  \<open>0 \<le> a x \<le> 1\<close> are accepted and stored, the first one as an \<open>EQ\<close> row, and so are the
  simple bounds \<open>0 \<le> x\<^sub>1 \<le> 1\<close> and \<open>3 \<le> x\<^sub>0 \<le> 3\<close>.
\<close>

theorem setData_validation_witness:
  "well_formed fresh1 \<and> well_formed fresh_simple \<and>
   fst (setData toy 0 [[1, 2, 2]] fresh1) = None \<and>
   EQ_row toy [[1, 2, 2]] 1 2 0 \<and>
   nActivations (snd (setData toy 0 [[1, 2, 2]] fresh1)) = 0 \<and>
   CtrType (objectives (snd (setData toy 0 [[1, 2, 2]] fresh1)) ! 0) ! 0 = CTR_ACTIVE_EQ \<and>
   fst (setData_simple toy 0 [0, 1] [[0, 1], [3, 3]] fresh_simple) = None \<and>
   EQ_row toy [[0, 1], [3, 3]] 0 1 1 \<and>
   CtrType (objectives (snd (setData_simple toy 0 [0, 1] [[0, 1], [3, 3]] fresh_simple)) ! 0) ! 1
     = CTR_ACTIVE_EQ \<and>
   crossed_row toy [[1, 1, 0]] 1 2 0 \<and>
   InvalidInput (the (fst (setData toy 0 [[1, 1, 0]] fresh1))) \<and>
   crossed_row toy [[0, 1], [1, 0]] 0 1 1 \<and>
   InvalidInput (the (fst (setData_simple toy 0 [0, 1] [[0, 1], [1, 0]] fresh_simple))) \<and>
   InvalidInput (the (fst (setData_simple toy 0 [1, 1] [[0, 1], [0, 1]] fresh_simple))) \<and>
   InvalidInput (the (fst (setData toy 0 [[1, 0, 1], [1, 0, 1]] fresh1))) \<and>
   well_formed fresh2 \<and>
   EQ_row toy [[1, 1 / 2000, 0], [1, 0, 1]] 1 2 0 \<and>
   \<not> EQ_row toy [[1, 1 / 2000, 0], [1, 0, 1]] 1 2 1 \<and>
   fst (setData toy 0 [[1, 1 / 2000, 0], [1, 0, 1]] fresh2) = None \<and>
   data (objectives (snd (setData toy 0 [[1, 1 / 2000, 0], [1, 0, 1]] fresh2)) ! 0)
     = [[1, 1 / 2000, 0], [1, 0, 1]] \<and>
   CtrType (objectives (snd (setData toy 0 [[1, 1 / 2000, 0], [1, 0, 1]] fresh2)) ! 0) ! 0
     = CTR_ACTIVE_EQ \<and>
   fst (setData_simple toy 0 [1, 0] [[0, 1], [3, 3]] fresh_simple) = None \<and>
   VarIndex (objectives (snd (setData_simple toy 0 [1, 0] [[0, 1], [3, 3]] fresh_simple)) ! 0)
     = [1, 0] \<and>
   CtrType (objectives (snd (setData_simple toy 0 [1, 0] [[0, 1], [3, 3]] fresh_simple)) ! 0) ! 1
     = CTR_ACTIVE_EQ"
proof -
  let ?d1 = "[[1, 2, 2]] :: dMatrixType"
  let ?s1 = "snd (setData toy 0 ?d1 fresh1)"
  let ?d2 = "[[0, 1], [3, 3]] :: dMatrixType"
  let ?s2 = "snd (setData_simple toy 0 [0, 1] ?d2 fresh_simple)"
  have wf1: "well_formed fresh1" and wf2: "well_formed fresh_simple"
    by code_simp+
  have n1: "nActivations fresh1 = 0" by (simp add: fresh1_def)
  have ok1: "setData toy 0 ?d1 fresh1 = (None, ?s1)" by code_simp
  have eq1: "EQ_row toy ?d1 (nVar fresh1) (nVar fresh1 + 1) 0" by code_simp
  have eq1': "EQ_row toy ?d1 1 2 0" by code_simp
  note T1 = setData_validation [OF wf1, of toy 0 ?d1 ?s1 "[]" "[]" fresh1, THEN conjunct1]
  have a: "nActivations ?s1 = 0 \<and> CtrType (objectives ?s1 ! 0) ! 0 = CTR_ACTIVE_EQ"
    using T1 [rule_format, OF ok1] eq1 n1 by simp
  have ok2: "setData_simple toy 0 [0, 1] ?d2 fresh_simple = (None, ?s2)" by code_simp
  have eq2: "EQ_row toy ?d2 0 1 1" by code_simp
  note T2 = setData_validation [OF wf2, of toy 0 "[]" fresh1 "[0, 1]" ?d2 ?s2,
      THEN conjunct2, THEN conjunct1]
  have b: "CtrType (objectives ?s2 ! 0) ! 1 = CTR_ACTIVE_EQ"
    using T2 [rule_format, OF ok2] eq2 by simp
  have cr3: "\<exists>k < length [[1, 1, 0 :: real]].
      crossed_row toy [[1, 1, 0]] (nVar fresh1) (nVar fresh1 + 1) k"
    and cr3': "crossed_row toy [[1, 1, 0]] 1 2 0"
    and rd3: "\<forall>k < length [[1, 1, 0 :: real]].
      bounds_of [[1, 1, 0]] (nVar fresh1) (nVar fresh1 + 1) k \<noteq> None"
    by code_simp+
  note T3 = setData_validation [OF wf1, of toy 0 "[[1, 1, 0]]" fresh1 "[]" "[]" fresh1,
      THEN conjunct2, THEN conjunct2, THEN conjunct1]
  have c: "InvalidInput (the (fst (setData toy 0 [[1, 1, 0]] fresh1)))"
    using T3 [rule_format, OF conjI [OF cr3 rd3]] by auto
  have cr4: "\<exists>k < length [[0, 1], [1, 0 :: real]]. crossed_row toy [[0, 1], [1, 0]] 0 1 k"
    and cr4': "crossed_row toy [[0, 1], [1, 0]] 0 1 1"
    and rd4: "\<forall>k < length [[0, 1], [1, 0 :: real]]. bounds_of [[0, 1], [1, 0]] 0 1 k \<noteq> None"
    and ln4: "length [[0, 1], [1, 0 :: real]] \<le> length [0, 1 :: nat]"
    by code_simp+
  note T4 = setData_validation [OF wf2, of toy 0 "[]" fresh1 "[0, 1]" "[[0, 1], [1, 0]]" fresh1,
      THEN conjunct2, THEN conjunct2, THEN conjunct2, THEN conjunct1]
  have d: "InvalidInput (the (fst (setData_simple toy 0 [0, 1] [[0, 1], [1, 0]] fresh_simple)))"
    using T4 [rule_format, OF conjI [OF cr4 conjI [OF rd4 ln4]]] by auto
  have rp5: "\<exists>k < length [[0, 1], [0, 1 :: real]]. \<exists>j < length [[0, 1], [0, 1 :: real]].
      [1, 1 :: nat] ! k = [1, 1] ! j \<and> j \<noteq> k"
    and rd5: "\<forall>k < length [[0, 1], [0, 1 :: real]]. bounds_of [[0, 1], [0, 1]] 0 1 k \<noteq> None"
    and ln5: "length [[0, 1], [0, 1 :: real]] \<le> length [1, 1 :: nat]"
    by code_simp+
  note T5 = setData_validation [OF wf2, of toy 0 "[]" fresh1 "[1, 1]" "[[0, 1], [0, 1]]" fresh1,
      THEN conjunct2, THEN conjunct2, THEN conjunct2, THEN conjunct2, THEN conjunct1]
  have e: "InvalidInput (the (fst (setData_simple toy 0 [1, 1] [[0, 1], [0, 1]] fresh_simple)))"
    using T5 [rule_format, OF conjI [OF rp5 conjI [OF rd5 ln5]]] by auto
  have mm: "nObj fresh1 \<le> 0 \<or>
      getDim (objectives fresh1 ! 0) \<noteq> length [[1, 0, 1], [1, 0, 1 :: real]]"
    by code_simp
  note T6 = setData_validation [OF wf1, of toy 0 "[[1, 0, 1], [1, 0, 1]]" fresh1 "[]" "[]" fresh1,
      THEN conjunct2, THEN conjunct2, THEN conjunct2, THEN conjunct2, THEN conjunct2,
      THEN conjunct1]
  have f: "InvalidInput (the (fst (setData toy 0 [[1, 0, 1], [1, 0, 1]] fresh1)))"
    using T6 [rule_format, OF mm] by auto
  have ok1f: "fst (setData toy 0 ?d1 fresh1) = None"
    and ok2f: "fst (setData_simple toy 0 [0, 1] ?d2 fresh_simple) = None"
    using ok1 ok2 by (metis fst_conv)+
  let ?d7 = "[[1, 1 / 2000, 0], [1, 0, 1]] :: dMatrixType"
  have wf3: "well_formed fresh2" by code_simp
  have h7: "0 < nObj fresh2 \<and> getObjType (objectives fresh2 ! 0) = GENERAL_OBJECTIVE \<and>
      getDim (objectives fresh2 ! 0) = length ?d7 \<and>
      (\<forall>k < length ?d7. bounds_of ?d7 (nVar fresh2) (nVar fresh2 + 1) k \<noteq> None \<and>
         \<not> crossed_row toy ?d7 (nVar fresh2) (nVar fresh2 + 1) k \<and>
         (EQ_row toy ?d7 (nVar fresh2) (nVar fresh2 + 1) k \<longrightarrow>
            CtrType (objectives fresh2 ! 0) ! k = CTR_INACTIVE))"
    by code_simp
  have eq7: "EQ_row toy ?d7 (nVar fresh2) (nVar fresh2 + 1) 0"
    and eq7': "EQ_row toy ?d7 1 2 0" and ne7': "\<not> EQ_row toy ?d7 1 2 1"
    by code_simp+
  note T7 = setData_validation [OF wf3, of toy 0 ?d7 fresh2 "[]" "[]" fresh2,
      THEN conjunct2, THEN conjunct2, THEN conjunct2, THEN conjunct2, THEN conjunct2,
      THEN conjunct2, THEN conjunct1, rule_format, OF h7]
  have g: "fst (setData toy 0 ?d7 fresh2) = None"
    "data (objectives (snd (setData toy 0 ?d7 fresh2)) ! 0) = ?d7"
    "CtrType (objectives (snd (setData toy 0 ?d7 fresh2)) ! 0) ! 0 = CTR_ACTIVE_EQ"
    using T7 eq7 by simp_all
  let ?d8 = "[[0, 1], [3, 3]] :: dMatrixType"
  have h8: "0 < nObj fresh_simple \<and>
      getObjType (objectives fresh_simple ! 0) = SIMPLE_BOUNDS_OBJECTIVE \<and>
      getDim (objectives fresh_simple ! 0) = length ?d8 \<and>
      (\<forall>k < length ?d8. bounds_of ?d8 0 1 k \<noteq> None \<and> \<not> crossed_row toy ?d8 0 1 k \<and>
         (EQ_row toy ?d8 0 1 k \<longrightarrow> CtrType (objectives fresh_simple ! 0) ! k = CTR_INACTIVE)) \<and>
      length ?d8 \<le> length [1, 0 :: nat] \<and>
      (\<forall>k < length ?d8. \<forall>j < length ?d8. [1, 0 :: nat] ! k = [1, 0] ! j \<longrightarrow> j = k)"
    by code_simp
  note T8 = setData_validation [OF wf2, of toy 0 "[]" fresh2 "[1, 0]" ?d8 fresh2,
      THEN conjunct2, THEN conjunct2, THEN conjunct2, THEN conjunct2, THEN conjunct2,
      THEN conjunct2, THEN conjunct2, THEN conjunct1, rule_format, OF h8]
  have h: "fst (setData_simple toy 0 [1, 0] ?d8 fresh_simple) = None"
    "VarIndex (objectives (snd (setData_simple toy 0 [1, 0] ?d8 fresh_simple)) ! 0) = [1, 0]"
    "CtrType (objectives (snd (setData_simple toy 0 [1, 0] ?d8 fresh_simple)) ! 0) ! 1
       = CTR_ACTIVE_EQ"
    using T8 eq2 by simp_all
  show ?thesis
    by (intro conjI wf1 wf2 ok1f eq1' a [THEN conjunct1] a [THEN conjunct2] ok2f eq2 b
        cr3' c cr4' d e f wf3 eq7' ne7' g h)
qed

text \<open>
  C8 as stated fails in two ways. "If the lower bound strictly exceeds the upper
  bound, an \<open>InvalidInput\<close> error is raised" fails inside the tolerance: the loop tests
  \<open>isEqual\<close> first, so the row \<open>1/2000 \<le> a x \<le> 0\<close> is accepted and activated as \<open>EQ\<close>.
  "If the row's bounds are equal within tolerance, the row is auto-activated" fails
  for a row that comes after the row at which the loop throws: of the rows
  \<open>1 \<le> a x \<le> 0\<close> and \<open>2 \<le> a x \<le> 2\<close> the first one raises the error and the second one
  is left inactive.
\<close>

theorem setData_crossed_within_tolerance_counterexample:
  "coeffRef [[1, 1 / 2000, 0]] 0 (nVar fresh1) = Some (1 / 2000) \<and>
   coeffRef [[1, 1 / 2000, 0]] 0 (nVar fresh1 + 1) = Some 0 \<and>
   (0 :: real) < 1 / 2000 \<and>
   fst (setData toy 0 [[1, 1 / 2000, 0]] fresh1) = None \<and>
   CtrType (objectives (snd (setData toy 0 [[1, 1 / 2000, 0]] fresh1)) ! 0) = [CTR_ACTIVE_EQ] \<and>
   coeffRef [[1, 1, 0], [1, 2, 2]] 1 (nVar fresh2) = Some 2 \<and>
   coeffRef [[1, 1, 0], [1, 2, 2]] 1 (nVar fresh2 + 1) = Some 2 \<and>
   isEqual toy 2 2 \<and>
   fst (setData toy 0 [[1, 1, 0], [1, 2, 2]] fresh2)
     = Some (Exception ''(general) Lower bound is greater than upper bound.'') \<and>
   CtrType (objectives (snd (setData toy 0 [[1, 1, 0], [1, 2, 2]] fresh2)) ! 0)
     = [CTR_INACTIVE, CTR_INACTIVE]"
  by code_simp

section \<open>\<open>setData\<close> is not atomic\<close>

lemma upt_split_at: "k < p \<Longrightarrow> [0..<p] = [0..<k] @ k # [Suc k..<p]"
  by (metis less_imp_add_positive upt_add_eq_append upt_conv_Cons zero_le add_0)

lemma check_bounds_at_first_crossed:
  assumes wf: "well_formed s" and oi: "ObjIndex < nObj s"
    and dim: "getDim (objectives s ! ObjIndex) = length d"
    and k: "k < length d"
    and before: "\<forall>j < k. bounds_of d lc uc j \<noteq> None \<and> \<not> crossed_row B d lc uc j"
    and crossed: "crossed_row B d lc uc k"
    and inactive: "\<forall>j < k. EQ_row B d lc uc j \<longrightarrow>
                     CtrType (objectives s ! ObjIndex) ! j = CTR_INACTIVE"
    and cb: "check_bounds B ObjIndex d lc uc msg [0..<length d] s = (r, s')"
  shows "r = Some (Exception msg) \<and>
     (\<forall>j < k. EQ_row B d lc uc j \<longrightarrow>
        CtrType (objectives s' ! ObjIndex) ! j = CTR_ACTIVE_EQ \<and>
        j \<in> set (active (objectives s' ! ObjIndex))) \<and>
     data (objectives s' ! ObjIndex) = data (objectives s ! ObjIndex) \<and>
     VarIndex (objectives s' ! ObjIndex) = VarIndex (objectives s ! ObjIndex) \<and>
     nActivations s' = nActivations s"
proof -
  note w = well_formed_nth [OF wf oi]
  have rows: "[0..<length d] = [0..<k] @ k # [Suc k..<length d]"
    using k by (rule upt_split_at)
  have "fst (check_bounds B ObjIndex d lc uc msg ([0..<k] @ k # [Suc k..<length d]) s)
          = Some (Exception msg) \<and>
        (\<forall>j \<in> set [0..<k]. EQ_row B d lc uc j \<longrightarrow>
           CtrType (objectives (snd (check_bounds B ObjIndex d lc uc msg
               ([0..<k] @ k # [Suc k..<length d]) s)) ! ObjIndex) ! j = CTR_ACTIVE_EQ \<and>
           j \<in> set (active (objectives (snd (check_bounds B ObjIndex d lc uc msg
               ([0..<k] @ k # [Suc k..<length d]) s)) ! ObjIndex)))"
  proof (rule check_bounds_first_crossed)
    show "\<forall>j\<in>set [0..<k]. bounds_of d lc uc j \<noteq> None \<and> \<not> crossed_row B d lc uc j"
      using before by simp
    show "crossed_row B d lc uc k" by (rule crossed)
    show "\<forall>j\<in>set [0..<k]. EQ_row B d lc uc j \<longrightarrow>
        j < length (CtrType (objectives s ! ObjIndex)) \<and>
        CtrType (objectives s ! ObjIndex) ! j = CTR_INACTIVE"
      using inactive w dim k by simp
    show "distinct [0..<k]" by simp
    show "ObjIndex < nObj s" by (rule oi)
    show "ObjIndex < length (objectives s)" using w by simp
  qed
  with cb rows have 1: "r = Some (Exception msg)"
    and 2: "\<forall>j < k. EQ_row B d lc uc j \<longrightarrow>
        CtrType (objectives s' ! ObjIndex) ! j = CTR_ACTIVE_EQ \<and>
        j \<in> set (active (objectives s' ! ObjIndex))"
    by simp_all
  obtain ws where "s' = set_working_set ObjIndex ws s"
    using check_bounds_state [of B ObjIndex d lc uc msg "[0..<length d]" s] cb by auto
  with 1 2 show ?thesis by simp
qed

text \<open>
  C10 (as amended). Let row \<open>k\<close> be the first row whose lower bound exceeds its upper
  bound beyond the tolerance of \<open>isEqual\<close>: the row at which the bounds check throws.
  For a well-formed solver whose earlier rows with equal bounds are still inactive,
  \<open>setData\<close> raises the "lower bound is greater than upper bound" exception, and in the
  state it leaves every row \<open>j < k\<close> with bounds equal within tolerance is \<open>ACTIVE_EQ\<close>
  and in the working set, while the stored row data (and \<open>VarIndex\<close>) of the objective
  are what they were; \<open>nActivations\<close> is unchanged too. This holds for both \<open>setData\<close>.
\<close>

theorem setData_not_atomic:
  assumes "well_formed s" and "ObjIndex < nObj s"
    and "getDim (objectives s ! ObjIndex) = length d"
    and "k < length d"
    and "\<forall>j < k. bounds_of d lc uc j \<noteq> None \<and> \<not> crossed_row B d lc uc j"
    and "crossed_row B d lc uc k"
    and "\<forall>j < k. EQ_row B d lc uc j \<longrightarrow> CtrType (objectives s ! ObjIndex) ! j = CTR_INACTIVE"
  shows
    "(getObjType (objectives s ! ObjIndex) = GENERAL_OBJECTIVE \<and> lc = nVar s \<and> uc = nVar s + 1 \<longrightarrow>
        (case setData B ObjIndex d s of
           (r, s') \<Rightarrow>
             r = Some (Exception ''(general) Lower bound is greater than upper bound.'') \<and>
             (\<forall>j < k. EQ_row B d lc uc j \<longrightarrow>
                CtrType (objectives s' ! ObjIndex) ! j = CTR_ACTIVE_EQ \<and>
                j \<in> set (active (objectives s' ! ObjIndex))) \<and>
             data (objectives s' ! ObjIndex) = data (objectives s ! ObjIndex) \<and>
             VarIndex (objectives s' ! ObjIndex) = VarIndex (objectives s ! ObjIndex) \<and>
             nActivations s' = nActivations s)) \<and>
     (getObjType (objectives s ! ObjIndex) = SIMPLE_BOUNDS_OBJECTIVE \<and> lc = 0 \<and> uc = 1 \<longrightarrow>
        (case setData_simple B ObjIndex VI d s of
           (r, s') \<Rightarrow>
             r = Some (Exception ''(simple) Lower bound is greater than upper bound.'') \<and>
             (\<forall>j < k. EQ_row B d lc uc j \<longrightarrow>
                CtrType (objectives s' ! ObjIndex) ! j = CTR_ACTIVE_EQ \<and>
                j \<in> set (active (objectives s' ! ObjIndex))) \<and>
             data (objectives s' ! ObjIndex) = data (objectives s ! ObjIndex) \<and>
             VarIndex (objectives s' ! ObjIndex) = VarIndex (objectives s ! ObjIndex) \<and>
             nActivations s' = nActivations s))"
proof (intro conjI impI)
  let ?msg = "''(general) Lower bound is greater than upper bound.''"
  assume g: "getObjType (objectives s ! ObjIndex) = GENERAL_OBJECTIVE \<and> lc = nVar s \<and> uc = nVar s + 1"
  obtain r s' where cb: "check_bounds B ObjIndex d lc uc ?msg [0..<length d] s = (r, s')"
    by (cases "check_bounds B ObjIndex d lc uc ?msg [0..<length d] s")
  note c = check_bounds_at_first_crossed [OF assms cb]
  from c have "setData B ObjIndex d s = (r, s')"
    using g cb assms(2,3) well_formed_nth [OF assms(1,2)] by (simp add: setData_def)
  with c show "case setData B ObjIndex d s of
      (r, s') \<Rightarrow>
        r = Some (Exception ?msg) \<and>
        (\<forall>j < k. EQ_row B d lc uc j \<longrightarrow>
           CtrType (objectives s' ! ObjIndex) ! j = CTR_ACTIVE_EQ \<and>
           j \<in> set (active (objectives s' ! ObjIndex))) \<and>
        data (objectives s' ! ObjIndex) = data (objectives s ! ObjIndex) \<and>
        VarIndex (objectives s' ! ObjIndex) = VarIndex (objectives s ! ObjIndex) \<and>
        nActivations s' = nActivations s"
    by simp
next
  let ?msg = "''(simple) Lower bound is greater than upper bound.''"
  assume g: "getObjType (objectives s ! ObjIndex) = SIMPLE_BOUNDS_OBJECTIVE \<and> lc = 0 \<and> uc = 1"
  obtain r s' where cb: "check_bounds B ObjIndex d lc uc ?msg [0..<length d] s = (r, s')"
    by (cases "check_bounds B ObjIndex d lc uc ?msg [0..<length d] s")
  note c = check_bounds_at_first_crossed [OF assms cb]
  from c have "setData_simple B ObjIndex VI d s = (r, s')"
    using g cb assms(2,3) well_formed_nth [OF assms(1,2)] by (simp add: setData_simple_def)
  with c show "case setData_simple B ObjIndex VI d s of
      (r, s') \<Rightarrow>
        r = Some (Exception ?msg) \<and>
        (\<forall>j < k. EQ_row B d lc uc j \<longrightarrow>
           CtrType (objectives s' ! ObjIndex) ! j = CTR_ACTIVE_EQ \<and>
           j \<in> set (active (objectives s' ! ObjIndex))) \<and>
        data (objectives s' ! ObjIndex) = data (objectives s ! ObjIndex) \<and>
        VarIndex (objectives s' ! ObjIndex) = VarIndex (objectives s ! ObjIndex) \<and>
        nActivations s' = nActivations s"
    by simp
qed

text \<open>An example: the rows \<open>2 \<le> a x \<le> 2\<close> and \<open>1 \<le> a x \<le> 0\<close>.\<close>

theorem setData_not_atomic_witness:
  "well_formed fresh2 \<and>
   EQ_row toy [[1, 2, 2], [1, 1, 0]] 1 2 0 \<and>
   crossed_row toy [[1, 2, 2], [1, 1, 0]] 1 2 1 \<and>
   CtrType (objectives fresh2 ! 0) = [CTR_INACTIVE, CTR_INACTIVE] \<and>
   fst (setData toy 0 [[1, 2, 2], [1, 1, 0]] fresh2)
     = Some (Exception ''(general) Lower bound is greater than upper bound.'') \<and>
   CtrType (objectives (snd (setData toy 0 [[1, 2, 2], [1, 1, 0]] fresh2)) ! 0) ! 0
     = CTR_ACTIVE_EQ \<and>
   data (objectives (snd (setData toy 0 [[1, 2, 2], [1, 1, 0]] fresh2)) ! 0) = []"
proof -
  let ?d = "[[1, 2, 2], [1, 1, 0]] :: dMatrixType"
  have wf: "well_formed fresh2" by code_simp
  have h: "0 < nObj fresh2" "getDim (objectives fresh2 ! 0) = length ?d" "1 < length ?d"
    "\<forall>j < 1. bounds_of ?d 1 2 j \<noteq> None \<and> \<not> crossed_row toy ?d 1 2 j"
    "crossed_row toy ?d 1 2 1"
    "\<forall>j < 1. EQ_row toy ?d 1 2 j \<longrightarrow> CtrType (objectives fresh2 ! 0) ! j = CTR_INACTIVE"
    by (simp_all add: example_defs)
  have g: "getObjType (objectives fresh2 ! 0) = GENERAL_OBJECTIVE \<and> 1 = nVar fresh2
      \<and> 2 = nVar fresh2 + 1"
    by code_simp
  have eq: "EQ_row toy ?d 1 2 0" and c0: "CtrType (objectives fresh2 ! 0) = [CTR_INACTIVE, CTR_INACTIVE]"
    and d0: "data (objectives fresh2 ! 0) = []"
    by code_simp+
  note T = setData_not_atomic [OF wf h, of "[]", THEN conjunct1, rule_format, OF g]
  obtain r s' where sd: "setData toy 0 ?d fresh2 = (r, s')" by (cases "setData toy 0 ?d fresh2")
  from T sd eq d0 have "r = Some (Exception ''(general) Lower bound is greater than upper bound.'')"
    "CtrType (objectives s' ! 0) ! 0 = CTR_ACTIVE_EQ" "data (objectives s' ! 0) = []"
    by simp_all
  with sd wf eq h(5) c0 show ?thesis by simp
qed

text \<open>\<open>fresh3\<close> is a solver as the constructor leaves it, with one general objective of three rows.\<close>

definition fresh3 :: "(ConstraintActivationType list list, nat) LexLSI" where
  "fresh3 =
     \<lparr> parameters = defaults0, nVar = 1, nObj = 1, nObjOffset = 0,
       nActivations = 0, nDeactivations = 0, nFactorizations = 0, nIterations = 0,
       x0_is_specified = False, step_length = 0, x = [0], dx = [0], nActive = [0],
       status = TERMINATION_STATUS_UNKNOWN, lexlse = [],
       objectives = [Objective_resize 3 1 GENERAL_OBJECTIVE],
       cycling_handler = 0 \<rparr>"

lemma fresh3_new: "LexLSI_new toy defaults0 1 1 [3] [GENERAL_OBJECTIVE] = Inr fresh3"
  by (simp add: LexLSI_new_def fresh3_def initialize_def toy_def Let_def)

text \<open>
  C10 as stated, for any row \<open>k\<close> whose lower bound is strictly greater than its upper
  bound, fails in two ways. When row \<open>k\<close> is not the first such row, the error
  propagates from the first one, and a row of equal bounds between the two has not
  been activated: of the rows \<open>1 \<le> a x \<le> 0\<close>, \<open>2 \<le> a x \<le> 2\<close> and \<open>1 \<le> a x \<le> 0\<close>, row
  \<open>1\<close> is inactive when the error raised at row \<open>0\<close> propagates, although \<open>1 < 2\<close> and
  row \<open>2\<close> has its lower bound above its upper bound. When the lower bound of row \<open>k\<close>
  exceeds the upper bound by less than the tolerance, no error is raised and the row
  data are stored: so it is for the one row \<open>2 + 1/4000 \<le> a x \<le> 2\<close>.
\<close>

theorem setData_later_row_counterexample:
  "well_formed fresh3 \<and>
   coeffRef [[1, 1, 0], [1, 2, 2], [1, 1, 0]] 2 (nVar fresh3) = Some 1 \<and>
   coeffRef [[1, 1, 0], [1, 2, 2], [1, 1, 0]] 2 (nVar fresh3 + 1) = Some 0 \<and>
   (0 :: real) < 1 \<and>
   EQ_row toy [[1, 1, 0], [1, 2, 2], [1, 1, 0]] (nVar fresh3) (nVar fresh3 + 1) 1 \<and>
   fst (setData toy 0 [[1, 1, 0], [1, 2, 2], [1, 1, 0]] fresh3)
     = Some (Exception ''(general) Lower bound is greater than upper bound.'') \<and>
   CtrType (objectives (snd (setData toy 0 [[1, 1, 0], [1, 2, 2], [1, 1, 0]] fresh3)) ! 0)
     = [CTR_INACTIVE, CTR_INACTIVE, CTR_INACTIVE] \<and>
   active (objectives (snd (setData toy 0 [[1, 1, 0], [1, 2, 2], [1, 1, 0]] fresh3)) ! 0) = [] \<and>
   coeffRef [[1, 2 + 1 / 4000, 2]] 0 (nVar fresh1) = Some (2 + 1 / 4000) \<and>
   coeffRef [[1, 2 + 1 / 4000, 2]] 0 (nVar fresh1 + 1) = Some 2 \<and>
   (2 :: real) < 2 + 1 / 4000 \<and>
   data (objectives fresh1 ! 0) = [] \<and>
   fst (setData toy 0 [[1, 2 + 1 / 4000, 2]] fresh1) = None \<and>
   data (objectives (snd (setData toy 0 [[1, 2 + 1 / 4000, 2]] fresh1)) ! 0)
     = [[1, 2 + 1 / 4000, 2]]"
  by code_simp

section \<open>What one iteration does to the working sets\<close>

text \<open>
  The working set of an objective is the pair of its activation types and its ordered
  list of active rows. \<open>checked_state\<close> is the state against which an iteration
  evaluates its checks: the state after the block under \<open>nIterations != 0\<close>, or the
  iteration's own initial state; \<open>blocking\<close> is what \<open>checkBlockingConstraints\<close> returns
  there, and \<open>alpha_of\<close> the step length in it.
\<close>

type_synonym WorkingSet = "ConstraintActivationType list \<times> Index list"

definition working_set :: "Objective \<Rightarrow> WorkingSet" where
  "working_set obj = (CtrType obj, active obj)"

definition working_sets :: "('l, 'c) LexLSI \<Rightarrow> WorkingSet list" where
  "working_sets s = map working_set (objectives s)"

definition checked_state :: "('l, 'c) backend \<Rightarrow> ('l, 'c) LexLSI \<Rightarrow> ('l, 'c) LexLSI" where
  "checked_state B s = (if nIterations s \<noteq> 0 then refactorize B s else s)"

definition blocking ::
  "('l, 'c) backend \<Rightarrow> ('l, 'c) LexLSI
    \<Rightarrow> bool \<times> Index option \<times> Index option \<times> ConstraintActivationType \<times> RealScalar" where
  "blocking B s = checkBlockingConstraints B (checked_state B s) (None, None, CTR_INACTIVE)"

definition alpha_of ::
  "bool \<times> Index option \<times> Index option \<times> ConstraintActivationType \<times> RealScalar \<Rightarrow> RealScalar" where
  "alpha_of b = snd (snd (snd (snd b)))"

text \<open>
  One \<open>ADD\<close>: one inactive row of one objective gets a type and is appended to the
  working set. One \<open>REMOVE\<close>: the row at one position of one working set becomes
  inactive and leaves the list, later entries moving up.
\<close>

definition one_ADD :: "WorkingSet list \<Rightarrow> WorkingSet list \<Rightarrow> bool" where
  "one_ADD W W' \<longleftrightarrow>
     (\<exists>ObjIndex CtrIndex type.
        ObjIndex < length W \<and> CtrIndex < length (fst (W ! ObjIndex)) \<and>
        fst (W ! ObjIndex) ! CtrIndex = CTR_INACTIVE \<and>
        W' = W[ObjIndex := ((fst (W ! ObjIndex))[CtrIndex := type],
                           snd (W ! ObjIndex) @ [CtrIndex])])"

definition one_REMOVE :: "WorkingSet list \<Rightarrow> WorkingSet list \<Rightarrow> bool" where
  "one_REMOVE W W' \<longleftrightarrow>
     (\<exists>ObjIndex k.
        ObjIndex < length W \<and> k < length (snd (W ! ObjIndex)) \<and>
        W' = W[ObjIndex := ((fst (W ! ObjIndex))[snd (W ! ObjIndex) ! k := CTR_INACTIVE],
                           take k (snd (W ! ObjIndex)) @ drop (Suc k) (snd (W ! ObjIndex)))])"

lemma for_each_objective_working_set:
  assumes "\<And>obj. working_set (f obj) = working_set obj"
  shows "map working_set (for_each_objective n f objs) = map working_set objs"
proof -
  have "map working_set (for_each_objective n f objs)
      = map working_set (take n objs) @ map working_set (drop n objs)"
    by (simp add: for_each_objective_def assms)
  also have "\<dots> = map working_set (take n objs @ drop n objs)"
    by (simp only: map_append)
  finally show ?thesis by simp
qed

lemma relax_data_working_set: "map working_set (relax_data ds objs) = map working_set objs"
  by (rule nth_equalityI) (simp_all add: relax_data_def working_set_def)

lemma working_sets_refactorize [simp]: "working_sets (refactorize B s) = working_sets s"
  by (simp add: working_sets_def refactorize_def formStep_def formLexLSE_def Let_def
      for_each_objective_working_set working_set_def)

lemma working_sets_end_of_iteration [simp]:
  "working_sets (end_of_iteration B operation cid alpha s) = working_sets s"
  by (simp add: working_sets_def end_of_iteration_def CyclingHandler_update_def Let_def
      for_each_objective_working_set relax_data_working_set working_set_def Objective_step_def
      split: prod.splits)

lemma working_sets_status [simp]: "working_sets (s\<lparr> status := st \<rparr>) = working_sets s"
  by (simp add: working_sets_def)

lemma findActiveCtr2Remove_frame:
  "working_sets (snd (findActiveCtr2Remove B s)) = working_sets s"
  "nActivations (snd (findActiveCtr2Remove B s)) = nActivations s"
  "nDeactivations (snd (findActiveCtr2Remove B s)) = nDeactivations s"
  "nObj (snd (findActiveCtr2Remove B s)) = nObj s"
  "status (snd (findActiveCtr2Remove B s)) = status s"
  "objectives (snd (findActiveCtr2Remove B s)) = objectives s"
  "parameters (snd (findActiveCtr2Remove B s)) = parameters s"
  using findActiveCtr2Remove_state [of B s] by (auto simp: working_sets_def)

text \<open>The five ways in which an iteration ends.\<close>

lemma verifyWorkingSet_cases:
  assumes "verifyWorkingSet B s = (r, s')"
  obtains
    (add) ObjIndex CtrIndex type alpha c2 where
      "blocking B s = (True, Some ObjIndex, Some CtrIndex, type, alpha)"
      "activate ObjIndex CtrIndex type True (checked_state B s) = (None, c2)"
      "r = Inr OPERATION_ADD"
      "s' = end_of_iteration B OPERATION_ADD
              (if cycling_handling_enabled (parameters (checked_state B s))
               then Some (ObjIndex, CtrIndex, type) else None) alpha c2"
  | (add_fails) e where
      "fst (blocking B s)" "r = Inl e" "s' = checked_state B s"
  | (remove) ObjIndex k cid c2 where
      "\<not> fst (blocking B s)" "\<not> (nIterations s = 0 \<and> x0_is_specified s)"
      "fst (findActiveCtr2Remove B (checked_state B s)) = Some (ObjIndex, k)"
      "deactivate ObjIndex k (snd (findActiveCtr2Remove B (checked_state B s))) = (None, c2)"
      "r = Inr OPERATION_REMOVE"
      "s' = end_of_iteration B OPERATION_REMOVE cid (snd (snd (snd (snd (blocking B s))))) c2"
  | (remove_fails) e where
      "\<not> fst (blocking B s)" "\<not> (nIterations s = 0 \<and> x0_is_specified s)"
      "fst (findActiveCtr2Remove B (checked_state B s)) \<noteq> None"
      "r = Inl e" "s' = snd (findActiveCtr2Remove B (checked_state B s))"
  | (solved)
      "\<not> fst (blocking B s)" "\<not> (nIterations s = 0 \<and> x0_is_specified s)"
      "fst (findActiveCtr2Remove B (checked_state B s)) = None"
      "r = Inr OPERATION_UNDEFINED"
      "s' = end_of_iteration B OPERATION_UNDEFINED None (snd (snd (snd (snd (blocking B s)))))
              ((snd (findActiveCtr2Remove B (checked_state B s)))\<lparr> status := PROBLEM_SOLVED \<rparr>)"
  | (skipped)
      "\<not> fst (blocking B s)" "nIterations s = 0" "x0_is_specified s"
      "r = Inr OPERATION_UNDEFINED"
      "s' = end_of_iteration B OPERATION_UNDEFINED None (snd (snd (snd (snd (blocking B s)))))
              (checked_state B s)"
proof -
  let ?c = "checked_state B s"
  obtain blk oi ci t alpha where b: "blocking B s = (blk, oi, ci, t, alpha)"
    by (cases "blocking B s") auto
  then have cb: "checkBlockingConstraints B ?c (None, None, CTR_INACTIVE) = (blk, oi, ci, t, alpha)"
    by (simp add: blocking_def)
  have v: "verifyWorkingSet B s =
     (if blk then
        (case (oi, ci) of
           (Some ObjIndex, Some CtrIndex) \<Rightarrow>
             (case activate ObjIndex CtrIndex t True ?c of
                (Some e, s2) \<Rightarrow> (Inl e, s2)
              | (None, s2) \<Rightarrow>
                  (Inr OPERATION_ADD,
                   end_of_iteration B OPERATION_ADD
                     (if cycling_handling_enabled (parameters ?c)
                      then Some (ObjIndex, CtrIndex, t) else None) alpha s2))
         | _ \<Rightarrow> (Inl Uninitialised, ?c))
      else if \<not> (nIterations s = 0 \<and> x0_is_specified s) then
        (case findActiveCtr2Remove B ?c of
           (Some (ObjIndex, CtrIndexActive), s2) \<Rightarrow>
             (case identifier_to_remove s2 ObjIndex CtrIndexActive of
                Inl e \<Rightarrow> (Inl e, s2)
              | Inr cid \<Rightarrow>
                  (case deactivate ObjIndex CtrIndexActive s2 of
                     (Some e, s3) \<Rightarrow> (Inl e, s3)
                   | (None, s3) \<Rightarrow>
                       (Inr OPERATION_REMOVE, end_of_iteration B OPERATION_REMOVE cid alpha s3)))
         | (None, s2) \<Rightarrow>
             (Inr OPERATION_UNDEFINED,
              end_of_iteration B OPERATION_UNDEFINED None alpha (s2\<lparr> status := PROBLEM_SOLVED \<rparr>)))
      else (Inr OPERATION_UNDEFINED, end_of_iteration B OPERATION_UNDEFINED None alpha ?c))"
    using cb unfolding verifyWorkingSet_def Let_def checked_state_def [symmetric] by simp
  show ?thesis
  proof (cases blk)
    case True
    show ?thesis
    proof (cases "\<exists>ObjIndex CtrIndex. oi = Some ObjIndex \<and> ci = Some CtrIndex")
      case ex: True
      then obtain ObjIndex CtrIndex where oc: "oi = Some ObjIndex" "ci = Some CtrIndex" by auto
      obtain ra c2 where a: "activate ObjIndex CtrIndex t True ?c = (ra, c2)"
        by (cases "activate ObjIndex CtrIndex t True ?c")
      show ?thesis
      proof (cases ra)
        case None
        with assms v True oc a b show ?thesis by (intro add [of ObjIndex CtrIndex t alpha c2]) auto
      next
        case (Some e)
        with activate_cases [OF a] have "c2 = ?c" by auto
        with assms v True oc a b Some show ?thesis by (intro add_fails [of e]) auto
      qed
    next
      case False
      with assms v True b show ?thesis
        by (intro add_fails [of Uninitialised]) (auto split: option.splits)
    qed
  next
    case nb: False
    show ?thesis
    proof (cases "nIterations s = 0 \<and> x0_is_specified s")
      case True
      with assms v nb b show ?thesis by (intro skipped) auto
    next
      case normal: False
      obtain rm c1 where f: "findActiveCtr2Remove B ?c = (rm, c1)"
        by (cases "findActiveCtr2Remove B ?c")
      show ?thesis
      proof (cases rm)
        case None
        with assms v nb normal b f show ?thesis by (intro solved) auto
      next
        case (Some p)
        obtain ObjIndex k where p: "p = (ObjIndex, k)" by (cases p)
        show ?thesis
        proof (cases "identifier_to_remove c1 ObjIndex k")
          case (Inl e)
          with assms v nb normal b f Some p show ?thesis by (intro remove_fails [of e]) auto
        next
          case (Inr cid)
          obtain rd c2 where d: "deactivate ObjIndex k c1 = (rd, c2)"
            by (cases "deactivate ObjIndex k c1")
          show ?thesis
          proof (cases rd)
            case None
            with assms v nb normal b f Some p Inr d show ?thesis
              by (intro remove [of ObjIndex k c2 cid]) auto
          next
            case se: (Some e)
            with deactivate_cases [OF d] have "c2 = c1" by auto
            with assms v nb normal b f Some p Inr d se show ?thesis
              by (intro remove_fails [of e]) auto
          qed
        qed
      qed
    qed
  qed
qed

lemma deactivate_None:
  assumes "deactivate oi k s = (None, s')"
  shows "oi < nObj s" and "oi < length (objectives s)"
    and "k < length (active (objectives s ! oi))"
    and "s' = s\<lparr> objectives := (objectives s)[oi := (objectives s ! oi)
              \<lparr> CtrType := (CtrType (objectives s ! oi))[active (objectives s ! oi) ! k := CTR_INACTIVE],
                active := take k (active (objectives s ! oi))
                          @ drop (Suc k) (active (objectives s ! oi)) \<rparr>],
            nDeactivations := nDeactivations s + 1 \<rparr>"
  using assms
  by (auto simp: deactivate_def Objective_deactivate_def split: if_splits)

lemma activate_one_ADD:
  assumes "activate oi k t c s = (None, s')"
  shows "one_ADD (working_sets s) (working_sets s')"
  unfolding one_ADD_def
  using activate_None [OF assms]
  by (intro exI [of _ oi] exI [of _ k] exI [of _ t])
     (simp add: working_sets_def working_set_def map_update)

lemma deactivate_one_REMOVE:
  assumes "deactivate oi k s = (None, s')"
  shows "one_REMOVE (working_sets s) (working_sets s')"
  unfolding one_REMOVE_def
  using deactivate_None [OF assms]
  by (intro exI [of _ oi] exI [of _ k])
     (simp add: working_sets_def working_set_def map_update)

lemma checked_state_frame [simp]:
  "working_sets (checked_state B s) = working_sets s"
  "nActivations (checked_state B s) = nActivations s"
  "nDeactivations (checked_state B s) = nDeactivations s"
  "nIterations (checked_state B s) = nIterations s"
  "parameters (checked_state B s) = parameters s"
  by (simp_all add: checked_state_def)

lemma iteration_effect:
  assumes "verifyWorkingSet B s = (r, s')"
  shows "(r = Inr OPERATION_ADD \<and> one_ADD (working_sets s) (working_sets s') \<and>
           nActivations s' = nActivations s + 1 \<and> nDeactivations s' = nDeactivations s) \<or>
         (r = Inr OPERATION_REMOVE \<and> one_REMOVE (working_sets s) (working_sets s') \<and>
           nActivations s' = nActivations s \<and> nDeactivations s' = nDeactivations s + 1) \<or>
         ((r = Inr OPERATION_UNDEFINED \<or> (\<exists>e. r = Inl e)) \<and> working_sets s' = working_sets s \<and>
           nActivations s' = nActivations s \<and> nDeactivations s' = nDeactivations s)"
  using assms
proof (cases rule: verifyWorkingSet_cases)
  case (add ObjIndex CtrIndex type alpha c2)
  from activate_one_ADD [OF add(2)] activate_None(5) [OF add(2)] add(3,4)
  show ?thesis by simp
next
  case (add_fails e)
  then show ?thesis by simp
next
  case (remove ObjIndex k cid c2)
  from deactivate_one_REMOVE [OF remove(4)] deactivate_None(4) [OF remove(4)] remove(5,6)
  show ?thesis by (simp add: findActiveCtr2Remove_frame)
next
  case (remove_fails e)
  then show ?thesis by (simp add: findActiveCtr2Remove_frame)
next
  case solved
  then show ?thesis by (simp add: findActiveCtr2Remove_frame)
next
  case skipped
  then show ?thesis by simp
qed


text \<open>What does not read \<open>ObjectiveSensitivity\<close> does not depend on it.\<close>

lemma formLexLSE_loop_sens [simp]:
  "formLexLSE_loop (B\<lparr> lexlse_ObjectiveSensitivity := f \<rparr>) off objs i l c
     = formLexLSE_loop B off objs i l c"
  by (induction objs arbitrary: i l c) (simp_all split: prod.splits)

lemma checkBlockingConstraints_loop_sens [simp]:
  "checkBlockingConstraints_loop (B\<lparr> lexlse_ObjectiveSensitivity := f \<rparr>) tol objs i acc
     = checkBlockingConstraints_loop B tol objs i acc"
  by (induction objs arbitrary: i acc)
     (simp_all add: Objective_checkBlockingConstraints_def split: prod.splits)

lemma sens_independent [simp]:
  "checked_state (B\<lparr> lexlse_ObjectiveSensitivity := f \<rparr>) s = checked_state B s"
  "checkBlockingConstraints (B\<lparr> lexlse_ObjectiveSensitivity := f \<rparr>) s init
     = checkBlockingConstraints B s init"
  "blocking (B\<lparr> lexlse_ObjectiveSensitivity := f \<rparr>) s = blocking B s"
  "end_of_iteration (B\<lparr> lexlse_ObjectiveSensitivity := f \<rparr>) operation cid alpha s
     = end_of_iteration B operation cid alpha s"
  by (simp_all add: checked_state_def refactorize_def formLexLSE_def formStep_def
      checkBlockingConstraints_def blocking_def end_of_iteration_def CyclingHandler_update_def
      Let_def)

lemma verifyWorkingSet_unfold:
  "verifyWorkingSet B s =
     (case blocking B s of
        (blk, ObjIndex2Manipulate, CtrIndex2Manipulate, CtrType2Manipulate, alpha) \<Rightarrow>
          if blk then
            (case (ObjIndex2Manipulate, CtrIndex2Manipulate) of
               (Some ObjIndex, Some CtrIndex) \<Rightarrow>
                 (case activate ObjIndex CtrIndex CtrType2Manipulate True (checked_state B s) of
                    (Some e, s2) \<Rightarrow> (Inl e, s2)
                  | (None, s2) \<Rightarrow>
                      (Inr OPERATION_ADD,
                       end_of_iteration B OPERATION_ADD
                         (if cycling_handling_enabled (parameters (checked_state B s))
                          then Some (ObjIndex, CtrIndex, CtrType2Manipulate) else None)
                         alpha s2))
             | _ \<Rightarrow> (Inl Uninitialised, checked_state B s))
          else if \<not> (nIterations s = 0 \<and> x0_is_specified s) then
            (case findActiveCtr2Remove B (checked_state B s) of
               (Some (ObjIndex, CtrIndexActive), s2) \<Rightarrow>
                 (case identifier_to_remove s2 ObjIndex CtrIndexActive of
                    Inl e \<Rightarrow> (Inl e, s2)
                  | Inr cid \<Rightarrow>
                      (case deactivate ObjIndex CtrIndexActive s2 of
                         (Some e, s3) \<Rightarrow> (Inl e, s3)
                       | (None, s3) \<Rightarrow>
                           (Inr OPERATION_REMOVE,
                            end_of_iteration B OPERATION_REMOVE cid alpha s3)))
             | (None, s2) \<Rightarrow>
                 (Inr OPERATION_UNDEFINED,
                  end_of_iteration B OPERATION_UNDEFINED None alpha
                    (s2\<lparr> status := PROBLEM_SOLVED \<rparr>)))
          else (Inr OPERATION_UNDEFINED,
                end_of_iteration B OPERATION_UNDEFINED None alpha (checked_state B s)))"
  unfolding verifyWorkingSet_def Let_def checked_state_def [symmetric] blocking_def by simp

lemma verifyWorkingSet_without_removal:
  assumes "fst (blocking B s) \<or> (nIterations s = 0 \<and> x0_is_specified s)"
  shows "verifyWorkingSet (B\<lparr> lexlse_ObjectiveSensitivity := f \<rparr>) s = verifyWorkingSet B s"
  using assms
  by (cases "blocking B s")
     (auto simp: verifyWorkingSet_unfold split: option.splits prod.splits)

text \<open>
  The spec has \<open>Objective::checkBlockingConstraints\<close> look at "every inactive row" of
  the objective. \<open>reports_inactive_rows\<close> says so of the scan that the backend
  provides: the row that it reports is a row of the objective, and inactive.
  \<open>blocking_row_inactive\<close> says it of one iteration: the blocking row that
  \<open>checkBlockingConstraints\<close> returned is an inactive row of an objective below \<open>nObj\<close>.
\<close>

definition reports_inactive_rows :: "('l, 'c) backend \<Rightarrow> bool" where
  "reports_inactive_rows B \<longleftrightarrow>
     (\<forall>obj tol alpha row type a.
        Objective_tightest B obj tol alpha = Some (row, type, a) \<longrightarrow>
          row < length (CtrType obj) \<and> CtrType obj ! row = CTR_INACTIVE)"

definition blocking_row_inactive :: "('l, 'c) backend \<Rightarrow> ('l, 'c) LexLSI \<Rightarrow> bool" where
  "blocking_row_inactive B s =
     (case blocking B s of
        (blk, Some ObjIndex, Some CtrIndex, type, alpha) \<Rightarrow>
          ObjIndex < nObj s \<and> ObjIndex < length (objectives s) \<and>
          CtrIndex < length (CtrType (objectives s ! ObjIndex)) \<and>
          CtrType (objectives s ! ObjIndex) ! CtrIndex = CTR_INACTIVE
      | _ \<Rightarrow> False)"

lemma checked_state_objectives:
  "nObj (checked_state B s) = nObj s"
  "length (objectives (checked_state B s)) = length (objectives s)"
  "i < length (objectives s) \<Longrightarrow>
     CtrType (objectives (checked_state B s) ! i) = CtrType (objectives s ! i)"
proof -
  show "nObj (checked_state B s) = nObj s"
    by (simp add: checked_state_def refactorize_def formLexLSE_def formStep_def Let_def)
  have w: "map working_set (objectives (checked_state B s)) = map working_set (objectives s)"
    using checked_state_frame(1) [of B s] by (simp add: working_sets_def)
  then show l: "length (objectives (checked_state B s)) = length (objectives s)"
    by (rule map_eq_imp_length_eq)
  assume i: "i < length (objectives s)"
  with w l have "working_set (objectives (checked_state B s) ! i) = working_set (objectives s ! i)"
    by (metis nth_map)
  then show "CtrType (objectives (checked_state B s) ! i) = CtrType (objectives s ! i)"
    by (simp add: working_set_def)
qed

lemma blocking_row_inactive_ADD:
  assumes v: "verifyWorkingSet B s = (r, s')"
    and b: "fst (blocking B s)" and i: "blocking_row_inactive B s"
  shows "r = Inr OPERATION_ADD"
proof -
  obtain blk o1 c1 t alpha where b0: "blocking B s = (blk, o1, c1, t, alpha)"
    by (metis prod_cases5)
  with i obtain oi ci where oc: "o1 = Some oi" "c1 = Some ci"
    by (cases o1; cases c1) (simp_all add: blocking_row_inactive_def)
  from b0 oc have bl: "blocking B s = (blk, Some oi, Some ci, t, alpha)" by simp
  from i bl have r: "oi < nObj s" "oi < length (objectives s)"
      "ci < length (CtrType (objectives s ! oi))"
      "CtrType (objectives s ! oi) ! ci = CTR_INACTIVE"
    by (simp_all add: blocking_row_inactive_def)
  from b bl have blk: "blk" by simp
  have "fst (activate oi ci t True (checked_state B s)) = None"
    using r by (intro activate_succeeds) (simp_all add: checked_state_objectives)
  then obtain c2 where "activate oi ci t True (checked_state B s) = (None, c2)"
    by (cases "activate oi ci t True (checked_state B s)") simp
  with v bl blk show ?thesis by (simp add: verifyWorkingSet_unfold)
qed

lemma checkBlockingConstraints_loop_found:
  assumes "reports_inactive_rows B"
    and "checkBlockingConstraints_loop B tol objs i (oi, ci, ct, a) = (oi', ci', ct', a')"
  shows "(oi', ci', ct', a') = (oi, ci, ct, a) \<or>
     (a' < a \<and> (\<exists>k row. oi' = Some (i + k) \<and> ci' = Some row \<and> k < length objs \<and>
        row < length (CtrType (objs ! k)) \<and> CtrType (objs ! k) ! row = CTR_INACTIVE))"
  using assms(2)
proof (induction objs arbitrary: i oi ci ct a)
  case Nil
  then show ?case by simp
next
  case (Cons obj objs)
  obtain f ci1 ct1 a1 where o:
    "Objective_checkBlockingConstraints B obj (ci, ct, a) tol = (f, ci1, ct1, a1)"
    by (cases "Objective_checkBlockingConstraints B obj (ci, ct, a) tol") auto
  from Cons.prems o
  have l: "checkBlockingConstraints_loop B tol objs (Suc i)
      (if f then Some i else oi, ci1, ct1, a1) = (oi', ci', ct', a')"
    by simp
  note IH = Cons.IH [OF l]
  show ?case
  proof (cases f)
    case False
    with o have "(ci1, ct1, a1) = (ci, ct, a)"
      by (auto simp: Objective_checkBlockingConstraints_def split: option.splits if_splits)
    with IH False show ?thesis by fastforce
  next
    case True
    with o obtain row where f: "ci1 = Some row" "a1 < a"
      "Objective_tightest B obj tol a = Some (row, ct1, a1)"
      by (auto simp: Objective_checkBlockingConstraints_def split: option.splits if_splits)
    from assms(1) f(3)
    have "row < length (CtrType obj) \<and> CtrType obj ! row = CTR_INACTIVE"
      unfolding reports_inactive_rows_def by blast
    then have r: "row < length (CtrType obj)" "CtrType obj ! row = CTR_INACTIVE"
      by simp_all
    from IH show ?thesis
    proof
      assume "(oi', ci', ct', a') = (if f then Some i else oi, ci1, ct1, a1)"
      with True f r have "a' < a \<and> oi' = Some (i + 0) \<and> ci' = Some row \<and>
          0 < length (obj # objs) \<and> row < length (CtrType ((obj # objs) ! 0)) \<and>
          CtrType ((obj # objs) ! 0) ! row = CTR_INACTIVE"
        by simp
      then show ?thesis by blast
    next
      assume "a' < a1 \<and> (\<exists>k row. oi' = Some (Suc i + k) \<and> ci' = Some row \<and> k < length objs \<and>
        row < length (CtrType (objs ! k)) \<and> CtrType (objs ! k) ! row = CTR_INACTIVE)"
      then obtain k row' where "a' < a1" "oi' = Some (i + Suc k)" "ci' = Some row'"
        "Suc k < length (obj # objs)" "row' < length (CtrType ((obj # objs) ! Suc k))"
        "CtrType ((obj # objs) ! Suc k) ! row' = CTR_INACTIVE"
        by auto
      with f(2) have "a' < a \<and> oi' = Some (i + Suc k) \<and> ci' = Some row' \<and>
        Suc k < length (obj # objs) \<and> row' < length (CtrType ((obj # objs) ! Suc k)) \<and>
        CtrType ((obj # objs) ! Suc k) ! row' = CTR_INACTIVE"
        by simp
      then show ?thesis by blast
    qed
  qed
qed

lemma reports_inactive_rows_blocking:
  assumes "reports_inactive_rows B" and "fst (blocking B s)"
  shows "blocking_row_inactive B s"
proof -
  let ?c = "checked_state B s"
  let ?objs = "take (nObj ?c) (objectives ?c)"
  obtain oi' ci' ct' a' where l: "checkBlockingConstraints_loop B (tol_feasibility (parameters ?c))
      ?objs 0 (None, None, CTR_INACTIVE, 1) = (oi', ci', ct', a')"
    by (metis prod_cases4)
  then have bl: "blocking B s = (a' < 1, oi', ci', ct', a')"
    by (simp add: blocking_def checkBlockingConstraints_def)
  with assms(2) have "a' < 1" by simp
  with checkBlockingConstraints_loop_found [OF assms(1) l]
  obtain k row where f: "oi' = Some k" "ci' = Some row" "k < length ?objs"
    "row < length (CtrType (?objs ! k))" "CtrType (?objs ! k) ! row = CTR_INACTIVE"
    by auto
  from f(3) have k: "k < nObj s" "k < length (objectives s)"
    by (simp_all add: checked_state_objectives)
  with f(4,5) have "row < length (CtrType (objectives s ! k))"
    "CtrType (objectives s ! k) ! row = CTR_INACTIVE"
    by (simp_all add: checked_state_objectives)
  with bl f(1,2) k show ?thesis by (simp add: blocking_row_inactive_def)
qed

text \<open>
  C4. In every call of \<open>verifyWorkingSet\<close>, whatever it returns or throws, one of three
  things happened to the working sets: exactly one \<open>ADD\<close> (the operation returned is
  \<open>OPERATION_ADD\<close> and \<open>nActivations\<close> went up by one), exactly one \<open>REMOVE\<close>
  (\<open>OPERATION_REMOVE\<close>, \<open>nDeactivations\<close> up by one), or nothing (\<open>OPERATION_UNDEFINED\<close>, or
  an exception of \<open>activate\<close> or \<open>deactivate\<close>, which then changed nothing). A blocking
  constraint exists exactly when \<open>alpha < 1\<close>. Then no removal is considered: the
  iteration is the same whatever \<open>ObjectiveSensitivity\<close> would answer, and it ends
  with the \<open>ADD\<close> or with an exception of \<open>activate\<close>. The \<open>ADD\<close> is performed whenever
  the blocking row returned is an inactive row of an objective below \<open>nObj\<close>, and so
  in every iteration with a blocking constraint when
  \<open>Objective::checkBlockingConstraints\<close> reports inactive rows only, as the spec has
  it.
\<close>

theorem one_operation_per_iteration:
  assumes "verifyWorkingSet B s = (r, s')"
  shows "((r = Inr OPERATION_ADD \<and> one_ADD (working_sets s) (working_sets s') \<and>
            nActivations s' = nActivations s + 1 \<and> nDeactivations s' = nDeactivations s) \<or>
          (r = Inr OPERATION_REMOVE \<and> one_REMOVE (working_sets s) (working_sets s') \<and>
            nActivations s' = nActivations s \<and> nDeactivations s' = nDeactivations s + 1) \<or>
          ((r = Inr OPERATION_UNDEFINED \<or> (\<exists>e. r = Inl e)) \<and>
            working_sets s' = working_sets s \<and>
            nActivations s' = nActivations s \<and> nDeactivations s' = nDeactivations s)) \<and>
         fst (blocking B s) = (alpha_of (blocking B s) < 1) \<and>
         (fst (blocking B s) \<longrightarrow>
            (r = Inr OPERATION_ADD \<or> (\<exists>e. r = Inl e)) \<and>
            (\<forall>f. verifyWorkingSet (B\<lparr> lexlse_ObjectiveSensitivity := f \<rparr>) s = (r, s'))) \<and>
         (fst (blocking B s) \<and> blocking_row_inactive B s \<longrightarrow>
            r = Inr OPERATION_ADD \<and> one_ADD (working_sets s) (working_sets s') \<and>
            nActivations s' = nActivations s + 1 \<and> nDeactivations s' = nDeactivations s) \<and>
         (fst (blocking B s) \<and> reports_inactive_rows B \<longrightarrow>
            r = Inr OPERATION_ADD \<and> one_ADD (working_sets s) (working_sets s') \<and>
            nActivations s' = nActivations s + 1 \<and> nDeactivations s' = nDeactivations s)"
proof (intro conjI)
  show e: "(r = Inr OPERATION_ADD \<and> one_ADD (working_sets s) (working_sets s') \<and>
            nActivations s' = nActivations s + 1 \<and> nDeactivations s' = nDeactivations s) \<or>
          (r = Inr OPERATION_REMOVE \<and> one_REMOVE (working_sets s) (working_sets s') \<and>
            nActivations s' = nActivations s \<and> nDeactivations s' = nDeactivations s + 1) \<or>
          ((r = Inr OPERATION_UNDEFINED \<or> (\<exists>e. r = Inl e)) \<and>
            working_sets s' = working_sets s \<and>
            nActivations s' = nActivations s \<and> nDeactivations s' = nDeactivations s)"
    by (rule iteration_effect [OF assms])
  show "fst (blocking B s) = (alpha_of (blocking B s) < 1)"
    by (simp add: blocking_def checkBlockingConstraints_def alpha_of_def split: prod.splits)
  show "fst (blocking B s) \<longrightarrow>
      (r = Inr OPERATION_ADD \<or> (\<exists>e. r = Inl e)) \<and>
      (\<forall>f. verifyWorkingSet (B\<lparr> lexlse_ObjectiveSensitivity := f \<rparr>) s = (r, s'))"
  proof (intro impI conjI)
    assume b: "fst (blocking B s)"
    from assms b show "r = Inr OPERATION_ADD \<or> (\<exists>e. r = Inl e)"
      by (cases rule: verifyWorkingSet_cases) simp_all
    from b assms
    show "\<forall>f. verifyWorkingSet (B\<lparr> lexlse_ObjectiveSensitivity := f \<rparr>) s = (r, s')"
      by (simp add: verifyWorkingSet_without_removal)
  qed
  show a: "fst (blocking B s) \<and> blocking_row_inactive B s \<longrightarrow>
      r = Inr OPERATION_ADD \<and> one_ADD (working_sets s) (working_sets s') \<and>
      nActivations s' = nActivations s + 1 \<and> nDeactivations s' = nDeactivations s"
  proof
    assume "fst (blocking B s) \<and> blocking_row_inactive B s"
    then have "r = Inr OPERATION_ADD" using blocking_row_inactive_ADD [OF assms] by simp
    with e show "r = Inr OPERATION_ADD \<and> one_ADD (working_sets s) (working_sets s') \<and>
      nActivations s' = nActivations s + 1 \<and> nDeactivations s' = nDeactivations s"
      by simp
  qed
  show "fst (blocking B s) \<and> reports_inactive_rows B \<longrightarrow>
      r = Inr OPERATION_ADD \<and> one_ADD (working_sets s) (working_sets s') \<and>
      nActivations s' = nActivations s + 1 \<and> nDeactivations s' = nDeactivations s"
    using a reports_inactive_rows_blocking [of B s] by blast
qed

text \<open>
  Examples: \<open>from_two\<close> is the solver for \<open>0 \<le> x \<le> 1\<close> started from \<open>x0 = 2\<close>, after its
  first iteration; its next iteration adds row \<open>0\<close> at the upper bound.
  \<open>at_lower_bound\<close> is the solver whose initial working set holds row \<open>0\<close> at its lower
  bound, after phase 1; its first iteration removes the row. The scan of the small
  backend reports row \<open>0\<close> only when it is inactive.
\<close>

definition from_two :: "(ConstraintActivationType list list, nat) LexLSI" where
  "from_two = snd (verifyWorkingSet toy (phase1 toy (set_x0 [2] problem1)))"

definition at_lower_bound :: "(ConstraintActivationType list list, nat) LexLSI" where
  "at_lower_bound = phase1 toy problem1_lb"

lemma toy_reports_inactive_rows: "reports_inactive_rows toy"
  by (auto simp: reports_inactive_rows_def toy_def
      split: list.splits ConstraintActivationType.splits if_splits)

theorem one_operation_per_iteration_witness:
  "fst (blocking toy from_two) \<and> blocking_row_inactive toy from_two \<and>
   reports_inactive_rows toy \<and>
   fst (verifyWorkingSet toy from_two) = Inr OPERATION_ADD \<and>
   one_ADD (working_sets from_two) (working_sets (snd (verifyWorkingSet toy from_two))) \<and>
   working_sets from_two = [([CTR_INACTIVE], [])] \<and>
   working_sets (snd (verifyWorkingSet toy from_two)) = [([CTR_ACTIVE_UB], [0])] \<and>
   \<not> fst (blocking toy at_lower_bound) \<and>
   fst (verifyWorkingSet toy at_lower_bound) = Inr OPERATION_REMOVE \<and>
   one_REMOVE (working_sets at_lower_bound)
     (working_sets (snd (verifyWorkingSet toy at_lower_bound))) \<and>
   working_sets at_lower_bound = [([CTR_ACTIVE_LB], [0])] \<and>
   working_sets (snd (verifyWorkingSet toy at_lower_bound)) = [([CTR_INACTIVE], [])]"
proof -
  obtain r1 s1 where v1: "verifyWorkingSet toy from_two = (r1, s1)"
    by (cases "verifyWorkingSet toy from_two")
  obtain r2 s2 where v2: "verifyWorkingSet toy at_lower_bound = (r2, s2)"
    by (cases "verifyWorkingSet toy at_lower_bound")
  have b1: "fst (blocking toy from_two)" and bi: "blocking_row_inactive toy from_two"
    and b2: "\<not> fst (blocking toy at_lower_bound)"
    by code_simp+
  note ri = toy_reports_inactive_rows
  have r2: "fst (verifyWorkingSet toy at_lower_bound) = Inr OPERATION_REMOVE"
    by code_simp
  have w: "working_sets from_two = [([CTR_INACTIVE], [])]"
    "working_sets (snd (verifyWorkingSet toy from_two)) = [([CTR_ACTIVE_UB], [0])]"
    "working_sets at_lower_bound = [([CTR_ACTIVE_LB], [0])]"
    "working_sets (snd (verifyWorkingSet toy at_lower_bound)) = [([CTR_INACTIVE], [])]"
    by code_simp+
  note T1 = one_operation_per_iteration [OF v1]
  from T1 b1 bi have "r1 = Inr OPERATION_ADD \<and> one_ADD (working_sets from_two) (working_sets s1)"
    by blast
  moreover from T1 b1 ri
  have "r1 = Inr OPERATION_ADD \<and> one_ADD (working_sets from_two) (working_sets s1)"
    by blast
  ultimately have r1: "fst (verifyWorkingSet toy from_two) = Inr OPERATION_ADD"
    and a: "one_ADD (working_sets from_two) (working_sets (snd (verifyWorkingSet toy from_two)))"
    using v1 by simp_all
  have d: "one_REMOVE (working_sets at_lower_bound)
      (working_sets (snd (verifyWorkingSet toy at_lower_bound)))"
    using one_operation_per_iteration [OF v2] r2 v2 by auto
  show ?thesis by (intro conjI b1 bi ri b2 r1 r2 w a d)
qed

section \<open>The first iteration when \<open>x0\<close> was given\<close>

lemma length_for_each_objective [simp]:
  "length (for_each_objective n f objs) = length objs"
  by (simp add: for_each_objective_def)

lemma phase1_frame [simp]:
  "nIterations (phase1 B s) = nIterations s"
  "nActivations (phase1 B s) = nActivations s"
  "nDeactivations (phase1 B s) = nDeactivations s"
  "x0_is_specified (phase1 B s) = x0_is_specified s"
  "status (phase1 B s) = status s"
  "parameters (phase1 B s) = parameters s"
  "nObj (phase1 B s) = nObj s"
  "nVar (phase1 B s) = nVar s"
  "dx (phase1 B s) = replicate (length (dx s)) 0"
  "length (objectives (phase1 B s)) = length (objectives s)"
  by (simp_all add: phase1_def formLexLSE_def Let_def)

lemma phase1_x_given: "x0_is_specified s \<Longrightarrow> x (phase1 B s) = x s"
  by (simp add: phase1_def formLexLSE_def Let_def)

lemma working_sets_phase1 [simp]: "working_sets (phase1 B s) = working_sets s"
  by (simp add: working_sets_def phase1_def formLexLSE_def Let_def
      for_each_objective_working_set working_set_def)

lemma end_of_iteration_frame [simp]:
  "lexlse (end_of_iteration B operation cid alpha s) = lexlse s"
  "dx (end_of_iteration B operation cid alpha s) = dx s"
  "nActive (end_of_iteration B operation cid alpha s) = nActive s"
  "status (end_of_iteration B OPERATION_UNDEFINED cid alpha s) = status s"
  by (simp_all add: end_of_iteration_def CyclingHandler_update_def Let_def split: prod.splits)

text \<open>
  C5 (as amended). Let \<open>set_x0(x0)\<close> be called on a solver with \<open>nIterations = 0\<close> and
  let \<open>p\<close> be the state after \<open>phase1\<close>: \<open>x\<close> is \<open>x0\<close> and \<open>dx\<close> is zero. The first iteration
  evaluates the blocking check against \<open>p\<close> itself: it does not assemble or factorize
  \<open>LexLSE\<close> (\<open>lexlse\<close>, \<open>nActive\<close> and \<open>nFactorizations\<close> are unchanged) and does not
  recompute the step (\<open>dx\<close> is unchanged). It never removes a constraint and never
  consults \<open>ObjectiveSensitivity\<close>: with a blocking constraint it adds it (or \<open>activate\<close>
  throws); without one it does no operation, changes no working set and leaves \<open>status\<close>
  as it was.
\<close>

theorem first_iteration_with_x0:
  assumes "nIterations s = 0"
    and "p = phase1 B (set_x0 x0 s)"
    and "verifyWorkingSet B p = (r, s')"
  shows "x p = x0 \<and> dx p = replicate (length (dx s)) 0 \<and>
     blocking B p = checkBlockingConstraints B p (None, None, CTR_INACTIVE) \<and>
     lexlse s' = lexlse p \<and> nFactorizations s' = nFactorizations p \<and>
     nActive s' = nActive p \<and> dx s' = dx p \<and>
     r \<noteq> Inr OPERATION_REMOVE \<and> nDeactivations s' = nDeactivations p \<and>
     (\<forall>f. verifyWorkingSet (B\<lparr> lexlse_ObjectiveSensitivity := f \<rparr>) p = (r, s')) \<and>
     (fst (blocking B p) \<longrightarrow> r = Inr OPERATION_ADD \<or> (\<exists>e. r = Inl e)) \<and>
     (\<not> fst (blocking B p) \<longrightarrow>
        r = Inr OPERATION_UNDEFINED \<and> working_sets s' = working_sets p \<and> status s' = status p)"
proof -
  have p0: "nIterations p = 0" and px: "x0_is_specified p"
    using assms(1,2) by (simp_all add: set_x0_def)
  have c: "checked_state B p = p" using p0 by (simp add: checked_state_def)
  have 1: "x p = x0" "dx p = replicate (length (dx s)) 0"
    using assms(2) by (simp_all add: phase1_x_given set_x0_def)
  have 2: "blocking B p = checkBlockingConstraints B p (None, None, CTR_INACTIVE)"
    by (simp add: blocking_def c)
  have 3: "\<forall>f. verifyWorkingSet (B\<lparr> lexlse_ObjectiveSensitivity := f \<rparr>) p = (r, s')"
    using verifyWorkingSet_without_removal [of B p] p0 px assms(3) by simp
  from assms(3) have "lexlse s' = lexlse p \<and> nFactorizations s' = nFactorizations p \<and>
     nActive s' = nActive p \<and> dx s' = dx p \<and>
     r \<noteq> Inr OPERATION_REMOVE \<and> nDeactivations s' = nDeactivations p \<and>
     (fst (blocking B p) \<longrightarrow> r = Inr OPERATION_ADD \<or> (\<exists>e. r = Inl e)) \<and>
     (\<not> fst (blocking B p) \<longrightarrow>
        r = Inr OPERATION_UNDEFINED \<and> working_sets s' = working_sets p \<and> status s' = status p)"
  proof (cases rule: verifyWorkingSet_cases)
    case (add ObjIndex CtrIndex type alpha c2)
    from activate_None(5) [OF add(2)] add(1,3,4) c show ?thesis by simp
  next
    case (add_fails e)
    with c show ?thesis by simp
  next
    case (remove ObjIndex k cid c2)
    with p0 px show ?thesis by simp
  next
    case (remove_fails e)
    with p0 px show ?thesis by simp
  next
    case solved
    with p0 px show ?thesis by simp
  next
    case skipped
    with c show ?thesis by simp
  qed
  with 1 2 3 show ?thesis by simp
qed

text \<open>
  An example: \<open>given_half\<close> is the solver with row \<open>0\<close> of \<open>0 \<le> x \<le> 1\<close> active at its lower
  bound and \<open>x0 = 1/2\<close>, after phase 1.
\<close>

definition given_half :: "(ConstraintActivationType list list, nat) LexLSI" where
  "given_half = phase1 toy (set_x0 [1 / 2] problem1_lb)"

theorem first_iteration_with_x0_witness:
  "nIterations problem1_lb = 0 \<and>
   x given_half = [1 / 2] \<and> dx given_half = [0] \<and>
   \<not> fst (blocking toy given_half) \<and>
   fst (verifyWorkingSet toy given_half) = Inr OPERATION_UNDEFINED \<and>
   working_sets (snd (verifyWorkingSet toy given_half)) = working_sets given_half \<and>
   lexlse (snd (verifyWorkingSet toy given_half)) = lexlse given_half \<and>
   nFactorizations (snd (verifyWorkingSet toy given_half)) = nFactorizations given_half"
proof -
  obtain r s' where v: "verifyWorkingSet toy given_half = (r, s')"
    by (cases "verifyWorkingSet toy given_half")
  have n: "nIterations problem1_lb = 0" and l: "length (dx problem1_lb) = 1"
    and b: "\<not> fst (blocking toy given_half)"
    by code_simp+
  note T = first_iteration_with_x0 [OF n given_half_def v]
  from T l have "x given_half = [1 / 2]" "dx given_half = [0]" by simp_all
  moreover from T b v have "fst (verifyWorkingSet toy given_half) = Inr OPERATION_UNDEFINED"
    "working_sets (snd (verifyWorkingSet toy given_half)) = working_sets given_half"
    "lexlse (snd (verifyWorkingSet toy given_half)) = lexlse given_half"
    "nFactorizations (snd (verifyWorkingSet toy given_half)) = nFactorizations given_half"
    by simp_all
  ultimately show ?thesis using n b by simp
qed

text \<open>
  C5 as stated ("and (possibly) a constraint removal are evaluated") fails: in
  \<open>given_half\<close> a removal candidate exists (\<open>findActiveCtr2Remove\<close> would return row \<open>0\<close>),
  and the iteration neither removes it nor does anything else; the same state without
  the flag \<open>x0_is_specified\<close> removes the row.
\<close>

theorem no_removal_in_first_iteration_with_x0_counterexample:
  "x0_is_specified given_half \<and> nIterations given_half = 0 \<and>
   fst (findActiveCtr2Remove toy given_half) = Some (0, 0) \<and>
   fst (verifyWorkingSet toy given_half) = Inr OPERATION_UNDEFINED \<and>
   working_sets given_half = [([CTR_ACTIVE_LB], [0])] \<and>
   working_sets (snd (verifyWorkingSet toy given_half)) = [([CTR_ACTIVE_LB], [0])] \<and>
   nDeactivations (snd (verifyWorkingSet toy given_half)) = 0 \<and>
   fst (verifyWorkingSet toy (given_half\<lparr> x0_is_specified := False \<rparr>)) = Inr OPERATION_REMOVE"
  by code_simp

section \<open>Phase 1\<close>

lemma sum_list_pos_iff: "0 < sum_list (map f xs) \<longleftrightarrow> (\<exists>a \<in> set xs. 0 < (f a :: nat))"
  by (induction xs) auto

lemma active_constraints_exist_iff:
  "list_ex (\<lambda>obj. Objective_getActiveCtrCount obj > 0) (take (nObj s) (objectives s))
     \<longleftrightarrow> 0 < getActiveCtrCount s"
  by (simp add: getActiveCtrCount_def list_ex_iff sum_list_pos_iff)

lemma fill_nth:
  "i < length xs \<Longrightarrow>
     fold (\<lambda>k xs. xs[k := c]) ks xs ! i = (if i \<in> set ks then c else xs ! i)"
  by (induction ks arbitrary: xs) (auto simp: nth_list_update)

lemma fill_length [simp]: "length (fold (\<lambda>k xs. xs[k := c]) ks xs) = length xs"
  by (induction ks arbitrary: xs) auto

lemma fill_all: "length xs = n \<Longrightarrow> fold (\<lambda>k xs. xs[k := c]) [0..<n] xs = replicate n c"
  by (rule nth_equalityI) (simp_all add: fill_nth)

lemma for_each_objective_nth:
  "i < n \<Longrightarrow> i < length objs \<Longrightarrow> for_each_objective n f objs ! i = f (objs ! i)"
  by (simp add: for_each_objective_def nth_append)

text \<open>
  The \<open>LexLSE\<close> problem assembled from the working sets of \<open>s\<close>, in the spec's words:
  the dimensions of the objectives that \<open>LexLSE\<close> knows (those from \<open>nObjOffset\<close> on)
  are set to their numbers of active rows, and then every objective below \<open>nObj\<close>, in
  order of priority, appends its active rows, objective \<open>ObjIndex\<close> as the objective
  \<open>ObjIndex - nObjOffset\<close> of \<open>LexLSE\<close>. \<open>formLexLSE\<close> computes it, and stores the
  numbers of active rows in \<open>nActive\<close>.
\<close>

definition assembled :: "('l, 'c) backend \<Rightarrow> ('l, 'c) LexLSI \<Rightarrow> 'l" where
  "assembled B s =
     fst (fold (\<lambda>(ObjIndex, obj) (l, counter).
                  Objective_formLexLSE B obj l counter (int ObjIndex - int (nObjOffset s)))
            (zip [0..<nObj s] (objectives s))
            (lexlse_setObjDim B
               (drop (nObjOffset s)
                  (map Objective_getActiveCtrCount (take (nObj s) (objectives s))))
               (lexlse s), 0))"

lemma formLexLSE_loop_fold:
  "formLexLSE_loop B off (take n objs) i l c
     = fold (\<lambda>(ObjIndex, obj) (l, counter).
               Objective_formLexLSE B obj l counter (int ObjIndex - int off))
         (zip [i..<i + n] objs) (l, c)"
proof (induction objs arbitrary: n i l c)
  case Nil
  show ?case by simp
next
  case (Cons obj objs)
  show ?case
  proof (cases n)
    case 0
    then show ?thesis by simp
  next
    case (Suc m)
    have u: "[i..<i + Suc m] = i # [Suc i..<Suc i + m]" by (simp add: upt_conv_Cons)
    obtain l' c' where o: "Objective_formLexLSE B obj l c (int i - int off) = (l', c')"
      by (cases "Objective_formLexLSE B obj l c (int i - int off)")
    from Cons.IH [of m "Suc i" l' c'] o show ?thesis
      unfolding Suc u by simp
  qed
qed

lemma formLexLSE_assembles:
  "lexlse (formLexLSE B s) = assembled B s"
  "nActive (formLexLSE B s) = map Objective_getActiveCtrCount (take (nObj s) (objectives s))"
  using formLexLSE_loop_fold [of B "nObjOffset s" "nObj s" "objectives s" 0]
  by (simp_all add: formLexLSE_def assembled_def Let_def)

text \<open>
  C6. \<open>phase1()\<close> leaves the state \<open>s'\<close> with:
  \<^item> if some objective has an active constraint (\<open>getActiveCtrCount\<close> is positive), the
    \<open>LexLSE\<close> problem assembled from the working sets, and in \<open>nActive\<close> the number of
    active rows of every objective; when no \<open>x0\<close> was given the problem is also
    factorized and solved, \<open>x\<close> is its solution and \<open>nFactorizations\<close> is one more; when
    \<open>x0\<close> was given, \<open>x\<close> and \<open>nFactorizations\<close> are unchanged;
  \<^item> if no objective has an active constraint and no \<open>x0\<close> was given, every component
    of \<open>x\<close> equal to \<open>0.01\<close> (\<open>x\<close> has \<open>nVar\<close> components then), and \<open>LexLSE\<close> and
    \<open>nActive\<close> untouched;
  \<^item> in every case \<open>dx\<close> zero, and for every objective the residual \<open>v\<close> computed from
    the new \<open>x\<close>, the step \<open>dv\<close> formed from the zero \<open>dx\<close>, and the working set unchanged.
\<close>

theorem phase1_computes:
  assumes "s' = phase1 B s"
  shows
   "(0 < getActiveCtrCount s \<and> \<not> x0_is_specified s \<longrightarrow>
       lexlse s' = lexlse_solve B (lexlse_factorize B (assembled B s)) \<and>
       nActive s' = map Objective_getActiveCtrCount (take (nObj s) (objectives s)) \<and>
       x s' = lexlse_get_x B (lexlse s') \<and> nFactorizations s' = nFactorizations s + 1) \<and>
    (0 < getActiveCtrCount s \<and> x0_is_specified s \<longrightarrow>
       lexlse s' = assembled B s \<and>
       nActive s' = map Objective_getActiveCtrCount (take (nObj s) (objectives s)) \<and>
       x s' = x s \<and> nFactorizations s' = nFactorizations s) \<and>
    (getActiveCtrCount s = 0 \<and> \<not> x0_is_specified s \<and> length (x s) = nVar s \<longrightarrow>
       x s' = replicate (nVar s) (1 / 100) \<and> lexlse s' = lexlse s \<and> nActive s' = nActive s \<and>
       nFactorizations s' = nFactorizations s) \<and>
    (getActiveCtrCount s = 0 \<and> x0_is_specified s \<longrightarrow>
       x s' = x s \<and> lexlse s' = lexlse s \<and> nActive s' = nActive s \<and>
       nFactorizations s' = nFactorizations s) \<and>
    dx s' = replicate (length (dx s)) 0 \<and>
    (\<forall>i < nObj s. i < length (objectives s) \<longrightarrow>
       v (objectives s' ! i) = Objective_phase1_v B (x s') (objectives s ! i) \<and>
       dv (objectives s' ! i) =
         Objective_formStep_dv B (dx s')
           ((objectives s ! i)\<lparr> v := Objective_phase1_v B (x s') (objectives s ! i) \<rparr>) \<and>
       working_set (objectives s' ! i) = working_set (objectives s ! i))"
proof -
  have ex: "list_ex (\<lambda>obj. Objective_getActiveCtrCount obj > 0) (take (nObj s) (objectives s))
     = (0 < getActiveCtrCount s)"
    by (rule active_constraints_exist_iff)
  have f [simp]: "nObj (formLexLSE B s) = nObj s" "objectives (formLexLSE B s) = objectives s"
    "x (formLexLSE B s) = x s" "dx (formLexLSE B s) = dx s"
    "x0_is_specified (formLexLSE B s) = x0_is_specified s"
    "nFactorizations (formLexLSE B s) = nFactorizations s"
    by (simp_all add: formLexLSE_def Let_def)
  show ?thesis
    unfolding assms phase1_def ex
    by (simp add: Let_def fill_all for_each_objective_nth working_set_def formLexLSE_assembles)
qed

text \<open>
  Examples: with row \<open>0\<close> in the initial working set, phase 1 assembles the one active
  row (the small backend records the activation types of the rows it is given),
  counts it in \<open>nActive\<close>, factorizes once and takes the solution \<open>x = 0\<close> of the small
  backend; when \<open>x0 = 1/2\<close> was given, it assembles the row and keeps \<open>x\<close>; with an
  empty working set it sets \<open>x\<close> to \<open>0.01\<close> and leaves \<open>LexLSE\<close> as it was.
\<close>

theorem phase1_computes_witness:
  "0 < getActiveCtrCount problem1_lb \<and> \<not> x0_is_specified problem1_lb \<and>
   lexlse problem1_lb = [] \<and> nActive problem1_lb = [0] \<and>
   assembled toy problem1_lb = [[CTR_ACTIVE_LB]] \<and>
   lexlse (phase1 toy problem1_lb) = [[CTR_ACTIVE_LB]] \<and>
   nActive (phase1 toy problem1_lb) = [1] \<and>
   x (phase1 toy problem1_lb) = [0] \<and> nFactorizations (phase1 toy problem1_lb) = 1 \<and>
   0 < getActiveCtrCount (set_x0 [1 / 2] problem1_lb) \<and>
   x0_is_specified (set_x0 [1 / 2] problem1_lb) \<and>
   lexlse (phase1 toy (set_x0 [1 / 2] problem1_lb)) = [[CTR_ACTIVE_LB]] \<and>
   nActive (phase1 toy (set_x0 [1 / 2] problem1_lb)) = [1] \<and>
   x (phase1 toy (set_x0 [1 / 2] problem1_lb)) = [1 / 2] \<and>
   nFactorizations (phase1 toy (set_x0 [1 / 2] problem1_lb)) = 0 \<and>
   getActiveCtrCount problem1 = 0 \<and> \<not> x0_is_specified problem1 \<and>
   length (x problem1) = nVar problem1 \<and>
   x (phase1 toy problem1) = [1 / 100] \<and> lexlse (phase1 toy problem1) = [] \<and>
   nActive (phase1 toy problem1) = [0] \<and> dx (phase1 toy problem1) = [0] \<and>
   v (objectives (phase1 toy problem1) ! 0) = [1 / 100]"
proof -
  let ?g = "set_x0 [1 / 2] problem1_lb"
  have a: "0 < getActiveCtrCount problem1_lb" "\<not> x0_is_specified problem1_lb"
    and a': "nFactorizations problem1_lb = 0"
      "map Objective_getActiveCtrCount (take (nObj problem1_lb) (objectives problem1_lb)) = [1]"
    and a0: "lexlse problem1_lb = []" "nActive problem1_lb = [0]"
      "assembled toy problem1_lb = [[CTR_ACTIVE_LB]]"
    and g: "0 < getActiveCtrCount ?g" "x0_is_specified ?g"
    and g': "assembled toy ?g = [[CTR_ACTIVE_LB]]"
      "map Objective_getActiveCtrCount (take (nObj ?g) (objectives ?g)) = [1]"
      "x ?g = [1 / 2]" "nFactorizations ?g = 0"
    and b: "getActiveCtrCount problem1 = 0" "\<not> x0_is_specified problem1"
      "length (x problem1) = nVar problem1"
    and b': "nVar problem1 = 1" "length (dx problem1) = 1"
      "0 < nObj problem1" "0 < length (objectives problem1)"
      "lexlse problem1 = []" "nActive problem1 = [0]"
    by code_simp+
  note T1 = phase1_computes [OF refl, where B = toy and s = problem1_lb, THEN conjunct1,
      rule_format, OF conjI [OF a]]
  note Tg = phase1_computes [OF refl, where B = toy and s = ?g, THEN conjunct2,
      THEN conjunct1, rule_format, OF conjI [OF g]]
  note T2 = phase1_computes [OF refl, where B = toy and s = problem1]
  have 1: "lexlse (phase1 toy problem1_lb) = [[CTR_ACTIVE_LB]]"
    "nActive (phase1 toy problem1_lb) = [1]"
    "x (phase1 toy problem1_lb) = [0]" "nFactorizations (phase1 toy problem1_lb) = 1"
    using T1 a' a0 by (simp_all add: toy_def)
  have 2: "lexlse (phase1 toy ?g) = [[CTR_ACTIVE_LB]]" "nActive (phase1 toy ?g) = [1]"
    "x (phase1 toy ?g) = [1 / 2]" "nFactorizations (phase1 toy ?g) = 0"
    using Tg g' by simp_all
  have 3: "x (phase1 toy problem1) = [1 / 100]" "lexlse (phase1 toy problem1) = []"
    "nActive (phase1 toy problem1) = [0]" "dx (phase1 toy problem1) = [0]"
    using T2 b b' by simp_all
  have "v (objectives (phase1 toy problem1) ! 0)
      = Objective_phase1_v toy (x (phase1 toy problem1)) (objectives problem1 ! 0)"
    using T2 b'(3,4) by simp
  with 3 have 4: "v (objectives (phase1 toy problem1) ! 0) = [1 / 100]"
    by (simp add: toy_def)
  show ?thesis by (intro conjI a a0 1 g 2 b 3 4)
qed

section \<open>Properties that hold at every iteration boundary\<close>

lemma checked_state_nFactorizations:
  "nFactorizations (checked_state B s)
     = nFactorizations s + (if nIterations s \<noteq> 0 then 1 else 0)"
  by (simp add: checked_state_def)

lemma findActiveCtr2Remove_counters [simp]:
  "nFactorizations (snd (findActiveCtr2Remove B s)) = nFactorizations s"
  "nIterations (snd (findActiveCtr2Remove B s)) = nIterations s"
  using findActiveCtr2Remove_state [of B s] by auto

lemma verifyWorkingSet_monotone:
  assumes "verifyWorkingSet B s = (r, s')"
  shows "nIterations s \<le> nIterations s' \<and> nActivations s \<le> nActivations s' \<and>
    nDeactivations s \<le> nDeactivations s' \<and> nFactorizations s \<le> nFactorizations s' \<and>
    nFactorizations s' \<le> nFactorizations s + (if nIterations s \<noteq> 0 then 1 else 0) \<and>
    parameters s' = parameters s"
  using assms
proof (cases rule: verifyWorkingSet_cases)
  case (add ObjIndex CtrIndex type alpha c2)
  from activate_None(5) [OF add(2)] add(3,4)
  show ?thesis by (simp add: checked_state_nFactorizations)
next
  case (add_fails e)
  then show ?thesis by (simp add: checked_state_nFactorizations)
next
  case (remove ObjIndex k cid c2)
  from deactivate_None(4) [OF remove(4)] remove(5,6)
  show ?thesis by (simp add: checked_state_nFactorizations findActiveCtr2Remove_frame)
next
  case (remove_fails e)
  then show ?thesis by (simp add: checked_state_nFactorizations findActiveCtr2Remove_frame)
next
  case solved
  then show ?thesis by (simp add: checked_state_nFactorizations findActiveCtr2Remove_frame)
next
  case skipped
  then show ?thesis by (simp add: checked_state_nFactorizations)
qed

text \<open>
  A property that every iteration keeps, and that the final assignment of \<open>status\<close>
  keeps, holds at every iteration boundary and in the state that the loop leaves.
\<close>

lemma solve_loop_invariant:
  assumes "I s"
    and step: "\<And>t r t'. I t \<Longrightarrow> verifyWorkingSet B t = (r, t') \<Longrightarrow> I t'"
    and fin: "\<And>t. I t \<Longrightarrow> I (t\<lparr> status := MAX_NUMBER_OF_FACTORIZATIONS_EXCEDED \<rparr>)"
  shows "I (snd (solve_loop B s)) \<and> (\<forall>t \<in> set (visited B s). I t)"
  using assms
proof (induction B s rule: solve_loop.induct)
  case (1 B s)
  note step = "1.prems"(2) and fin = "1.prems"(3)
  obtain r s1 where v: "verifyWorkingSet B s = (r, s1)" by (cases "verifyWorkingSet B s")
  have I1: "I s1" using step [OF "1.prems"(1) v] .
  show ?case
  proof (cases r)
    case (Inl e)
    with v I1 "1.prems"(1) show ?thesis
      by (subst solve_loop.simps, subst visited.simps) simp
  next
    case (Inr operation)
    show ?thesis
    proof (cases "status s1 = PROBLEM_SOLVED \<or> status s1 = PROBLEM_SOLVED_CYCLING_HANDLING")
      case True
      with v Inr I1 "1.prems"(1) show ?thesis
        by (subst solve_loop.simps, subst visited.simps) simp
    next
      case False
      show ?thesis
      proof (cases "nFactorizations s1 \<ge> max_number_of_factorizations (parameters s1)")
        case True
        with v Inr False fin [OF I1] "1.prems"(1) show ?thesis
          by (subst solve_loop.simps, subst visited.simps) simp
      next
        case nm: False
        from "1.IH" [OF v [symmetric] Inr False nm I1 step fin]
        have "I (snd (solve_loop B s1)) \<and> (\<forall>t \<in> set (visited B s1). I t)" .
        with v Inr False nm "1.prems"(1) show ?thesis
          by (subst solve_loop.simps, subst visited.simps) simp
      qed
    qed
  qed
qed

section \<open>What \<open>solve\<close> does not reset\<close>

lemma phase1_nFactorizations:
  "nFactorizations s \<le> nFactorizations (phase1 B s)"
  "nFactorizations (phase1 B s) \<le> nFactorizations s + 1"
  by (simp_all add: phase1_def formLexLSE_def Let_def)

lemma solve_monotone:
  "\<forall>t \<in> set (visited B (phase1 B s)) \<union> {snd (solve B s)}.
     nIterations s \<le> nIterations t \<and> nActivations s \<le> nActivations t \<and>
     nDeactivations s \<le> nDeactivations t \<and> nFactorizations s \<le> nFactorizations t"
proof -
  let ?I = "\<lambda>t. nIterations s \<le> nIterations t \<and> nActivations s \<le> nActivations t \<and>
     nDeactivations s \<le> nDeactivations t \<and> nFactorizations s \<le> nFactorizations t"
  have "?I (snd (solve_loop B (phase1 B s))) \<and> (\<forall>t \<in> set (visited B (phase1 B s)). ?I t)"
  proof (rule solve_loop_invariant)
    show "?I (phase1 B s)" using phase1_nFactorizations(1) [of s B] by simp
  next
    fix t r t'
    assume "?I t" and "verifyWorkingSet B t = (r, t')"
    with verifyWorkingSet_monotone [of B t r t'] show "?I t'" by auto
  next
    fix t
    assume "?I t"
    then show "?I (t\<lparr> status := MAX_NUMBER_OF_FACTORIZATIONS_EXCEDED \<rparr>)" by simp
  qed
  then show ?thesis by (simp add: solve_def)
qed

lemma solve_loop_iterates:
  assumes "fst (solve_loop B s) = Inr st"
  shows "nIterations s < nIterations (snd (solve_loop B s))"
proof -
  obtain r s1 where v: "verifyWorkingSet B s = (r, s1)" by (cases "verifyWorkingSet B s")
  from assms v obtain operation where r: "r = Inr operation"
    by (cases r) (auto simp: solve_loop.simps [of B s])
  note c = verifyWorkingSet_counters [OF v [unfolded r]]
  let ?I = "\<lambda>t. nIterations s < nIterations t"
  have "?I (snd (solve_loop B s1)) \<and> (\<forall>t \<in> set (visited B s1). ?I t)"
  proof (rule solve_loop_invariant)
    show "?I s1" using c by simp
  next
    fix t r t'
    assume "?I t" and "verifyWorkingSet B t = (r, t')"
    with verifyWorkingSet_monotone [of B t r t'] show "?I t'" by auto
  next
    fix t
    assume "?I t"
    then show "?I (t\<lparr> status := MAX_NUMBER_OF_FACTORIZATIONS_EXCEDED \<rparr>)" by simp
  qed
  with v r c show ?thesis
    by (subst solve_loop.simps) simp
qed

text \<open>
  What one run of \<open>solve()\<close> does, read off the iterations that it starts
  (\<open>visited\<close>): the iterations that return (an iteration that throws does not reach
  \<open>nIterations++\<close>), the \<open>ADD\<close>s, the \<open>REMOVE\<close>s, and the factorizations: the one of
  \<open>phase1\<close>, made when a constraint is active and no \<open>x0\<close> was given, and the one of
  every iteration that starts with \<open>nIterations != 0\<close>.
\<close>

definition iterations_completed :: "('l, 'c) backend \<Rightarrow> ('l, 'c) LexLSI \<Rightarrow> nat" where
  "iterations_completed B s =
     length (filter (\<lambda>t. \<not> isl (fst (verifyWorkingSet B t))) (visited B (phase1 B s)))"

definition additions :: "('l, 'c) backend \<Rightarrow> ('l, 'c) LexLSI \<Rightarrow> nat" where
  "additions B s =
     length (filter (\<lambda>t. fst (verifyWorkingSet B t) = Inr OPERATION_ADD) (visited B (phase1 B s)))"

definition removals :: "('l, 'c) backend \<Rightarrow> ('l, 'c) LexLSI \<Rightarrow> nat" where
  "removals B s =
     length (filter (\<lambda>t. fst (verifyWorkingSet B t) = Inr OPERATION_REMOVE)
       (visited B (phase1 B s)))"

definition factorizations :: "('l, 'c) backend \<Rightarrow> ('l, 'c) LexLSI \<Rightarrow> nat" where
  "factorizations B s =
     (if 0 < getActiveCtrCount s \<and> \<not> x0_is_specified s then 1 else 0)
     + length (filter (\<lambda>t. nIterations t \<noteq> 0) (visited B (phase1 B s)))"

lemma verifyWorkingSet_exact:
  assumes "verifyWorkingSet B s = (r, s')"
  shows "nIterations s' = nIterations s + (if isl r then 0 else 1) \<and>
    nActivations s' = nActivations s + (if r = Inr OPERATION_ADD then 1 else 0) \<and>
    nDeactivations s' = nDeactivations s + (if r = Inr OPERATION_REMOVE then 1 else 0) \<and>
    nFactorizations s' = nFactorizations s + (if nIterations s \<noteq> 0 then 1 else 0)"
  using assms
proof (cases rule: verifyWorkingSet_cases)
  case (add ObjIndex CtrIndex type alpha c2)
  from activate_None(5) [OF add(2)] add(3,4)
  show ?thesis by (simp add: checked_state_nFactorizations)
next
  case (add_fails e)
  then show ?thesis by (simp add: checked_state_nFactorizations)
next
  case (remove ObjIndex k cid c2)
  from deactivate_None(4) [OF remove(4)] remove(5,6)
  show ?thesis by (simp add: checked_state_nFactorizations findActiveCtr2Remove_frame)
next
  case (remove_fails e)
  then show ?thesis by (simp add: checked_state_nFactorizations findActiveCtr2Remove_frame)
next
  case solved
  then show ?thesis by (simp add: checked_state_nFactorizations findActiveCtr2Remove_frame)
next
  case skipped
  then show ?thesis by (simp add: checked_state_nFactorizations)
qed

lemma solve_loop_counts:
  "nIterations (snd (solve_loop B p))
     = nIterations p + length (filter (\<lambda>t. \<not> isl (fst (verifyWorkingSet B t))) (visited B p)) \<and>
   nActivations (snd (solve_loop B p))
     = nActivations p
       + length (filter (\<lambda>t. fst (verifyWorkingSet B t) = Inr OPERATION_ADD) (visited B p)) \<and>
   nDeactivations (snd (solve_loop B p))
     = nDeactivations p
       + length (filter (\<lambda>t. fst (verifyWorkingSet B t) = Inr OPERATION_REMOVE) (visited B p)) \<and>
   nFactorizations (snd (solve_loop B p))
     = nFactorizations p + length (filter (\<lambda>t. nIterations t \<noteq> 0) (visited B p))"
proof (induction B p rule: solve_loop.induct)
  case (1 B s)
  obtain r s' where v: "verifyWorkingSet B s = (r, s')" by (cases "verifyWorkingSet B s")
  note e = verifyWorkingSet_exact [OF v]
  show ?case
  proof (cases r)
    case (Inl err)
    with v have "solve_loop B s = (Inl err, s')" "visited B s = [s]"
      by (simp_all add: solve_loop.simps [of B s] visited.simps [of B s])
    with e v Inl show ?thesis by simp
  next
    case (Inr operation)
    show ?thesis
    proof (cases "status s' = PROBLEM_SOLVED \<or> status s' = PROBLEM_SOLVED_CYCLING_HANDLING")
      case True
      with v Inr have "solve_loop B s = (Inr (status s'), s')" "visited B s = [s]"
        by (simp_all add: solve_loop.simps [of B s] visited.simps [of B s])
      with e v Inr show ?thesis by simp
    next
      case ns: False
      show ?thesis
      proof (cases "max_number_of_factorizations (parameters s') \<le> nFactorizations s'")
        case True
        with v Inr ns have "snd (solve_loop B s)
            = s'\<lparr> status := MAX_NUMBER_OF_FACTORIZATIONS_EXCEDED \<rparr>" "visited B s = [s]"
          by (simp_all add: solve_loop.simps [of B s] visited.simps [of B s])
        with e v Inr show ?thesis by simp
      next
        case False
        with v Inr ns have l: "solve_loop B s = solve_loop B s'"
          "visited B s = s # visited B s'"
          by (simp_all add: solve_loop.simps [of B s] visited.simps [of B s])
        from "1.IH" [OF v [symmetric] Inr ns False] e v Inr
        show ?thesis by (simp add: l)
      qed
    qed
  qed
qed

lemma phase1_factorizes:
  "nFactorizations (phase1 B s)
     = nFactorizations s + (if 0 < getActiveCtrCount s \<and> \<not> x0_is_specified s then 1 else 0)"
  by (simp add: phase1_def formLexLSE_def Let_def active_constraints_exist_iff)

lemma solve_counts:
  "nIterations (snd (solve B s)) = nIterations s + iterations_completed B s \<and>
   nActivations (snd (solve B s)) = nActivations s + additions B s \<and>
   nDeactivations (snd (solve B s)) = nDeactivations s + removals B s \<and>
   nFactorizations (snd (solve B s)) = nFactorizations s + factorizations B s"
  using solve_loop_counts [of B "phase1 B s"]
  by (simp add: solve_def iterations_completed_def additions_def removals_def
      factorizations_def phase1_factorizes)

text \<open>
  C3 (as amended). The four counters are set to zero, and \<open>status\<close> to
  \<open>TERMINATION_STATUS_UNKNOWN\<close>, by the constructor, whenever it constructs the
  object. \<open>solve()\<close> resets none of them:
  \<^item> \<open>phase1\<close>, which is all that \<open>solve\<close> does before it iterates, leaves \<open>nIterations\<close>,
    \<open>nActivations\<close>, \<open>nDeactivations\<close> and \<open>status\<close> as they were and does not lower
    \<open>nFactorizations\<close>: the first iteration starts from the counters and the status
    that the call found;
  \<^item> at every iteration boundary and in the state that \<open>solve\<close> leaves, no counter is
    below its value before the call;
  \<^item> in the state that \<open>solve\<close> leaves, \<open>nIterations\<close> is its value before the call plus
    the number of iterations that returned, \<open>nActivations\<close> its value plus the number
    of \<open>ADD\<close>s, \<open>nDeactivations\<close> its value plus the number of \<open>REMOVE\<close>s, and
    \<open>nFactorizations\<close> its value plus the number of factorizations of the run; when
    \<open>solve\<close> returns a status, at least one iteration returned;
  \<^item> so the counters read after a second \<open>solve()\<close> are the values before the first
    one plus what both runs did.
\<close>

theorem solve_does_not_reset:
  "(LexLSI_new B defaults n m ObjDim0 ObjType0 = Inr s0 \<longrightarrow>
      nIterations s0 = 0 \<and> nActivations s0 = 0 \<and> nDeactivations s0 = 0 \<and>
      nFactorizations s0 = 0 \<and> status s0 = TERMINATION_STATUS_UNKNOWN) \<and>
   nIterations (phase1 B s) = nIterations s \<and> nActivations (phase1 B s) = nActivations s \<and>
   nDeactivations (phase1 B s) = nDeactivations s \<and> status (phase1 B s) = status s \<and>
   nFactorizations s \<le> nFactorizations (phase1 B s) \<and>
   (\<forall>t \<in> set (visited B (phase1 B s)) \<union> {snd (solve B s)}.
      nIterations s \<le> nIterations t \<and> nActivations s \<le> nActivations t \<and>
      nDeactivations s \<le> nDeactivations t \<and> nFactorizations s \<le> nFactorizations t) \<and>
   nIterations (snd (solve B s)) = nIterations s + iterations_completed B s \<and>
   nActivations (snd (solve B s)) = nActivations s + additions B s \<and>
   nDeactivations (snd (solve B s)) = nDeactivations s + removals B s \<and>
   nFactorizations (snd (solve B s)) = nFactorizations s + factorizations B s \<and>
   (\<forall>st. fst (solve B s) = Inr st \<longrightarrow>
      0 < iterations_completed B s \<and> nIterations s < nIterations (snd (solve B s))) \<and>
   (let s1 = snd (solve B s); s2 = snd (solve B s1) in
      nIterations s2 = nIterations s + iterations_completed B s + iterations_completed B s1 \<and>
      nActivations s2 = nActivations s + additions B s + additions B s1 \<and>
      nDeactivations s2 = nDeactivations s + removals B s + removals B s1 \<and>
      nFactorizations s2 = nFactorizations s + factorizations B s + factorizations B s1)"
proof (intro conjI impI allI)
  assume "LexLSI_new B defaults n m ObjDim0 ObjType0 = Inr s0"
  then have "nIterations s0 = 0 \<and> nActivations s0 = 0 \<and> nDeactivations s0 = 0 \<and>
      nFactorizations s0 = 0 \<and> status s0 = TERMINATION_STATUS_UNKNOWN"
    by (auto simp: LexLSI_new_def initialize_def Let_def split: if_splits)
  then show "nIterations s0 = 0" "nActivations s0 = 0" "nDeactivations s0 = 0"
    "nFactorizations s0 = 0" "status s0 = TERMINATION_STATUS_UNKNOWN"
    by simp_all
next
  show "nIterations (phase1 B s) = nIterations s" "nActivations (phase1 B s) = nActivations s"
    "nDeactivations (phase1 B s) = nDeactivations s" "status (phase1 B s) = status s"
    by simp_all
  show "nFactorizations s \<le> nFactorizations (phase1 B s)" by (rule phase1_nFactorizations)
  show "\<forall>t \<in> set (visited B (phase1 B s)) \<union> {snd (solve B s)}.
      nIterations s \<le> nIterations t \<and> nActivations s \<le> nActivations t \<and>
      nDeactivations s \<le> nDeactivations t \<and> nFactorizations s \<le> nFactorizations t"
    by (rule solve_monotone)
  note c = solve_counts [of B s]
  from c show "nIterations (snd (solve B s)) = nIterations s + iterations_completed B s"
    "nActivations (snd (solve B s)) = nActivations s + additions B s"
    "nDeactivations (snd (solve B s)) = nDeactivations s + removals B s"
    "nFactorizations (snd (solve B s)) = nFactorizations s + factorizations B s"
    by simp_all
  from c solve_counts [of B "snd (solve B s)"]
  show "let s1 = snd (solve B s); s2 = snd (solve B s1) in
      nIterations s2 = nIterations s + iterations_completed B s + iterations_completed B s1 \<and>
      nActivations s2 = nActivations s + additions B s + additions B s1 \<and>
      nDeactivations s2 = nDeactivations s + removals B s + removals B s1 \<and>
      nFactorizations s2 = nFactorizations s + factorizations B s + factorizations B s1"
    by (simp add: Let_def)
next
  fix st
  assume "fst (solve B s) = Inr st"
  then show l: "nIterations s < nIterations (snd (solve B s))"
    using solve_loop_iterates [of B "phase1 B s" st] by (simp add: solve_def)
  with solve_counts [of B s] show "0 < iterations_completed B s" by simp
qed

text \<open>
  Examples: \<open>solved_once\<close> is the solver for \<open>0 \<le> x \<le> 1\<close> after one \<open>solve()\<close>, which
  took one iteration; a second \<open>solve()\<close> takes one more and leaves \<open>nIterations = 2\<close>.
  The run from the row active at its lower bound takes two iterations, one of them a
  \<open>REMOVE\<close>, and two factorizations.
\<close>

definition solved_once :: "(ConstraintActivationType list list, nat) LexLSI" where
  "solved_once = snd (solve toy problem1)"

theorem solve_does_not_reset_witness:
  "LexLSI_new toy defaults0 1 1 [1] [GENERAL_OBJECTIVE] = Inr fresh1 \<and>
   nIterations fresh1 = 0 \<and> status fresh1 = TERMINATION_STATUS_UNKNOWN \<and>
   fst (solve toy solved_once) = Inr PROBLEM_SOLVED \<and>
   nIterations solved_once < nIterations (snd (solve toy solved_once)) \<and>
   nIterations problem1 = 0 \<and> iterations_completed toy problem1 = 1 \<and>
   iterations_completed toy solved_once = 1 \<and>
   nIterations (snd (solve toy solved_once)) = 2 \<and>
   nIterations problem1_lb = 0 \<and> nDeactivations problem1_lb = 0 \<and>
   nFactorizations problem1_lb = 0 \<and>
   iterations_completed toy problem1_lb = 2 \<and> removals toy problem1_lb = 1 \<and>
   factorizations toy problem1_lb = 2 \<and>
   nIterations (snd (solve toy problem1_lb)) = 2 \<and>
   nDeactivations (snd (solve toy problem1_lb)) = 1 \<and>
   nFactorizations (snd (solve toy problem1_lb)) = 2"
proof -
  note T = solve_does_not_reset [of toy defaults0 1 1 "[1]" "[GENERAL_OBJECTIVE]" fresh1
      solved_once]
  note T1 = solve_does_not_reset [of toy defaults0 1 1 "[1]" "[GENERAL_OBJECTIVE]" fresh1
      problem1]
  note T2 = solve_does_not_reset [of toy defaults0 1 1 "[1]" "[GENERAL_OBJECTIVE]" fresh1
      problem1_lb]
  have r: "fst (solve toy solved_once) = Inr PROBLEM_SOLVED" by code_simp
  from T r fresh1_new
  have a: "LexLSI_new toy defaults0 1 1 [1] [GENERAL_OBJECTIVE] = Inr fresh1"
    "nIterations fresh1 = 0" "status fresh1 = TERMINATION_STATUS_UNKNOWN"
    "nIterations solved_once < nIterations (snd (solve toy solved_once))"
    by simp_all
  have c: "nIterations problem1 = 0" "iterations_completed toy problem1 = 1"
    "iterations_completed toy solved_once = 1"
    by code_simp+
  from T1 c have b: "nIterations (snd (solve toy solved_once)) = 2"
    by (simp add: Let_def solved_once_def)
  have d: "nIterations problem1_lb = 0" "nDeactivations problem1_lb = 0"
    "nFactorizations problem1_lb = 0"
    "iterations_completed toy problem1_lb = 2" "removals toy problem1_lb = 1"
    "factorizations toy problem1_lb = 2"
    by code_simp+
  from T2 d have e: "nIterations (snd (solve toy problem1_lb)) = 2"
    "nDeactivations (snd (solve toy problem1_lb)) = 1"
    "nFactorizations (snd (solve toy problem1_lb)) = 2"
    by simp_all
  show ?thesis by (intro conjI a r c b d e)
qed

text \<open>
  C3 as stated ("every call to \<open>solve()\<close> resets the iteration counters and the
  termination status before iterating") fails: the first \<open>solve()\<close> ends after one
  iteration and no factorization and leaves the data as they were; the second starts
  iterating from \<open>nIterations = 1\<close> and \<open>status = PROBLEM_SOLVED\<close>, and ends with
  \<open>nIterations = 2\<close> and \<open>nFactorizations = 1\<close>, where a run from reset counters would
  repeat the first one.
\<close>

theorem second_solve_counters_counterexample:
  "fst (solve toy problem1) = Inr PROBLEM_SOLVED \<and>
   nIterations (snd (solve toy problem1)) = 1 \<and>
   nFactorizations (snd (solve toy problem1)) = 0 \<and>
   data (objectives (snd (solve toy problem1)) ! 0) = data (objectives problem1 ! 0) \<and>
   fst (solve toy (snd (solve toy problem1))) = Inr PROBLEM_SOLVED \<and>
   nIterations (phase1 toy (snd (solve toy problem1))) = 1 \<and>
   status (phase1 toy (snd (solve toy problem1))) = PROBLEM_SOLVED \<and>
   nIterations (snd (solve toy (snd (solve toy problem1)))) = 2 \<and>
   nFactorizations (snd (solve toy (snd (solve toy problem1)))) = 1"
  by code_simp


section \<open>The balance of the counters\<close>

text \<open>
  \<open>count_active ws n\<close> is what \<open>getActiveCtrCount\<close> returns for the working sets \<open>ws\<close>
  of \<open>n\<close> objectives: the sum of the numbers of their active rows.
\<close>

definition count_active :: "WorkingSet list \<Rightarrow> Index \<Rightarrow> Index" where
  "count_active W n = sum_list (map (\<lambda>w. length (snd w)) (take n W))"

lemma getActiveCtrCount_working_sets:
  "getActiveCtrCount s = count_active (working_sets s) (nObj s)"
  by (simp add: getActiveCtrCount_def count_active_def working_sets_def working_set_def
      Objective_getActiveCtrCount_def [abs_def] take_map comp_def)

lemma count_active_update:
  assumes "i < n" "i < length W"
  shows "int (count_active (W[i := w]) n)
     = int (count_active W n) - int (length (snd (W ! i))) + int (length (snd w))"
proof -
  let ?xs = "map (\<lambda>w. length (snd w)) (take n W)"
  have i: "i < length ?xs" using assms by simp
  have "map (\<lambda>w. length (snd w)) (take n (W[i := w])) = ?xs[i := length (snd w)]"
    using assms by (simp add: take_update_swap map_update)
  then have "count_active (W[i := w]) n = sum_list ?xs + length (snd w) - ?xs ! i"
    using i by (simp add: count_active_def sum_list_update)
  moreover have "?xs ! i \<le> sum_list ?xs" using i by (rule elem_le_sum_list)
  moreover have "?xs ! i = length (snd (W ! i))" using assms by simp
  ultimately show ?thesis by (simp add: count_active_def)
qed

text \<open>
  What an \<open>activate\<close> and a \<open>deactivate\<close> of \<open>verifyWorkingSet\<close> keep: the number of
  active constraints less the activations that have been counted, plus the
  deactivations that have been counted. It is an integer: \<open>nDeactivations\<close> may be
  above \<open>nActivations\<close>.
\<close>

definition balance :: "('l, 'c) LexLSI \<Rightarrow> int" where
  "balance s = int (getActiveCtrCount s) + int (nDeactivations s) - int (nActivations s)"

lemma nObj_frame [simp]:
  "nObj (checked_state B s) = nObj s"
  "nObj (end_of_iteration B operation cid alpha s) = nObj s"
  by (simp_all add: checked_state_def refactorize_def formStep_def formLexLSE_def
      end_of_iteration_def CyclingHandler_update_def Let_def split: prod.splits)

lemma balance_frame:
  "balance (checked_state B s) = balance s"
  "balance (end_of_iteration B operation cid alpha s) = balance s"
  "balance (snd (findActiveCtr2Remove B s)) = balance s"
  "balance (s\<lparr> status := st \<rparr>) = balance s"
  "balance (phase1 B s) = balance s"
  by (simp_all add: balance_def getActiveCtrCount_working_sets findActiveCtr2Remove_frame)

lemma activate_balance:
  assumes "activate oi k t True s = (None, s')"
  shows "balance s' = balance s"
proof -
  note n = activate_None [OF assms]
  have w: "working_sets s' = (working_sets s)[oi :=
      ((CtrType (objectives s ! oi))[k := t], active (objectives s ! oi) @ [k])]"
    using n by (simp add: working_sets_def working_set_def map_update)
  have ns: "nObj s' = nObj s" using n(5) by simp
  have old: "snd (working_sets s ! oi) = active (objectives s ! oi)"
    "oi < length (working_sets s)"
    using n(2) by (simp_all add: working_sets_def working_set_def)
  have "int (getActiveCtrCount s') = int (getActiveCtrCount s) + 1"
    unfolding getActiveCtrCount_working_sets w ns
    using count_active_update [OF n(1) old(2)] old(1) by simp
  with n(5) show ?thesis by (simp add: balance_def)
qed

lemma deactivate_balance:
  assumes "deactivate oi k s = (None, s')"
  shows "balance s' = balance s"
proof -
  note n = deactivate_None [OF assms]
  let ?a = "active (objectives s ! oi)"
  have w: "working_sets s' = (working_sets s)[oi :=
      ((CtrType (objectives s ! oi))[?a ! k := CTR_INACTIVE], take k ?a @ drop (Suc k) ?a)]"
    using n by (simp add: working_sets_def working_set_def map_update)
  have ns: "nObj s' = nObj s" using n(4) by simp
  have old: "snd (working_sets s ! oi) = ?a" "oi < length (working_sets s)"
    using n(2) by (simp_all add: working_sets_def working_set_def)
  have "int (length (take k ?a @ drop (Suc k) ?a)) = int (length ?a) - 1" using n(3) by auto
  then have "int (getActiveCtrCount s') = int (getActiveCtrCount s) - 1"
    unfolding getActiveCtrCount_working_sets w ns
    using count_active_update [OF n(1) old(2)] old(1) by simp
  with n(4) show ?thesis by (simp add: balance_def)
qed

lemma verifyWorkingSet_balance:
  assumes "verifyWorkingSet B s = (r, s')"
  shows "balance s' = balance s"
  using assms
proof (cases rule: verifyWorkingSet_cases)
  case (add ObjIndex CtrIndex type alpha c2)
  with activate_balance [OF add(2)] show ?thesis by (simp add: balance_frame)
next
  case (add_fails e)
  then show ?thesis by (simp add: balance_frame)
next
  case (remove ObjIndex k cid c2)
  with deactivate_balance [OF remove(4)] show ?thesis by (simp add: balance_frame)
next
  case (remove_fails e)
  then show ?thesis by (simp add: balance_frame)
next
  case solved
  then show ?thesis by (simp add: balance_frame)
next
  case skipped
  then show ?thesis by (simp add: balance_frame)
qed

text \<open>
  C9 (as amended). At every iteration boundary of \<open>solve()\<close>, and in the state that
  \<open>solve()\<close> leaves, the activations counted since \<open>solve()\<close> was entered, less the
  deactivations counted since then, plus the number of constraints that were active
  when \<open>solve()\<close> was entered, is \<open>getActiveCtrCount()\<close>. The constraints active at
  entry are all those of the working sets, whoever activated them: the \<open>EQ\<close> rows of
  \<open>setData\<close>, the rows that the user activated with \<open>api_activate\<close>, and what an
  earlier \<open>solve()\<close> left. The differences are taken in the integers.
\<close>

theorem counters_balance:
  "\<forall>t \<in> set (visited B (phase1 B s)) \<union> {snd (solve B s)}.
     int (nActivations t) - int (nActivations s)
       - (int (nDeactivations t) - int (nDeactivations s))
       + int (getActiveCtrCount s)
     = int (getActiveCtrCount t)"
proof -
  let ?I = "\<lambda>t. balance t = balance s"
  have "?I (snd (solve_loop B (phase1 B s))) \<and> (\<forall>t \<in> set (visited B (phase1 B s)). ?I t)"
  proof (rule solve_loop_invariant)
    show "?I (phase1 B s)" by (simp add: balance_frame)
  next
    fix t r t'
    assume "?I t" and "verifyWorkingSet B t = (r, t')"
    with verifyWorkingSet_balance [of B t r t'] show "?I t'" by simp
  next
    fix t
    assume "?I t"
    then show "?I (t\<lparr> status := MAX_NUMBER_OF_FACTORIZATIONS_EXCEDED \<rparr>)"
      by (simp add: balance_frame)
  qed
  then show ?thesis by (auto simp: solve_def balance_def)
qed

text \<open>
  An example: the solver for \<open>0 \<le> x \<le> 1\<close> whose row the user has activated at its lower
  bound. \<open>solve()\<close> removes it: one deactivation, no activation, and no active
  constraint is left.
\<close>

theorem counters_balance_witness:
  "snd (solve toy problem1_lb) \<in> set (visited toy (phase1 toy problem1_lb))
      \<union> {snd (solve toy problem1_lb)} \<and>
   nActivations problem1_lb = 0 \<and> nDeactivations problem1_lb = 0 \<and>
   getActiveCtrCount problem1_lb = 1 \<and>
   nActivations (snd (solve toy problem1_lb)) = 0 \<and>
   nDeactivations (snd (solve toy problem1_lb)) = 1 \<and>
   getActiveCtrCount (snd (solve toy problem1_lb)) = 0"
proof -
  have m: "snd (solve toy problem1_lb) \<in> set (visited toy (phase1 toy problem1_lb))
      \<union> {snd (solve toy problem1_lb)}"
    by simp
  have a: "nActivations problem1_lb = 0" "nDeactivations problem1_lb = 0"
    "getActiveCtrCount problem1_lb = 1"
    "nActivations (snd (solve toy problem1_lb)) = 0"
    "nDeactivations (snd (solve toy problem1_lb)) = 1"
    by code_simp+
  from counters_balance [of toy problem1_lb, rule_format, OF m] a
  have "getActiveCtrCount (snd (solve toy problem1_lb)) = 0" by simp
  with m a show ?thesis by simp
qed

text \<open>The rows that \<open>setData\<close> has activated as \<open>EQ\<close>.\<close>

definition initial_EQ_rows :: "('l, 'c) LexLSI \<Rightarrow> nat" where
  "initial_EQ_rows s =
     sum_list (map (\<lambda>obj. length (filter (\<lambda>t. t = CTR_ACTIVE_EQ) (CtrType obj)))
       (take (nObj s) (objectives s)))"

text \<open>
  C9 as stated (\<open>nActivations - nDeactivations\<close> plus the number of initial \<open>EQ\<close> rows is
  \<open>getActiveCtrCount()\<close> at every iteration boundary) fails in the same example at the
  first boundary, before the first iteration: \<open>api_activate\<close> has activated the row
  without counting it (it calls \<open>activate\<close> with \<open>CountActivation = false\<close>) and the row
  is not an \<open>EQ\<close> row, so that both counters and the number of \<open>EQ\<close> rows are \<open>0\<close> while
  one constraint is active.
\<close>

theorem initial_working_set_counterexample:
  "at_lower_bound = phase1 toy problem1_lb \<and>
   visited toy (phase1 toy problem1_lb) = [at_lower_bound, snd (verifyWorkingSet toy at_lower_bound)] \<and>
   initial_EQ_rows problem1_lb = 0 \<and>
   nActivations at_lower_bound = 0 \<and> nDeactivations at_lower_bound = 0 \<and>
   getActiveCtrCount at_lower_bound = 1"
  by code_simp


section \<open>How \<open>solve\<close> stops\<close>

text \<open>
  The loop of \<open>solve\<close> factorizes once in every iteration but the one with
  \<open>nIterations = 0\<close>, and tests the cap only after an iteration.
\<close>

lemma solve_loop_factorizations:
  "nFactorizations (snd (solve_loop B s))
     \<le> max (max_number_of_factorizations (parameters s))
           (nFactorizations s + (if nIterations s = 0 then 0 else 1))"
proof (induction B s rule: solve_loop.induct)
  case (1 B s)
  obtain r s1 where v: "verifyWorkingSet B s = (r, s1)" by (cases "verifyWorkingSet B s")
  note m = verifyWorkingSet_monotone [OF v]
  show ?case
  proof (cases r)
    case (Inl e)
    with v m show ?thesis by (subst solve_loop.simps) auto
  next
    case (Inr operation)
    note c = verifyWorkingSet_counters [OF v [unfolded Inr]]
    show ?thesis
    proof (cases "status s1 = PROBLEM_SOLVED \<or> status s1 = PROBLEM_SOLVED_CYCLING_HANDLING")
      case True
      with v Inr m show ?thesis by (subst solve_loop.simps) auto
    next
      case False
      show ?thesis
      proof (cases "nFactorizations s1 \<ge> max_number_of_factorizations (parameters s1)")
        case True
        with v Inr False m show ?thesis by (subst solve_loop.simps) auto
      next
        case nm: False
        from "1.IH" [OF v [symmetric] Inr False nm] c nm
        have "nFactorizations (snd (solve_loop B s1))
            \<le> max_number_of_factorizations (parameters s)"
          by simp
        with v Inr False nm show ?thesis by (subst solve_loop.simps) simp
      qed
    qed
  qed
qed

text \<open>The status that the loop returns is the one that it leaves in \<open>status\<close>.\<close>

lemma solve_loop_status:
  "fst (solve_loop B s) = Inr st \<Longrightarrow>
     st = status (snd (solve_loop B s)) \<and>
     (st = PROBLEM_SOLVED \<or> st = PROBLEM_SOLVED_CYCLING_HANDLING \<or>
      st = MAX_NUMBER_OF_FACTORIZATIONS_EXCEDED)"
proof (induction B s rule: solve_loop.induct)
  case (1 B s)
  obtain r s1 where v: "verifyWorkingSet B s = (r, s1)" by (cases "verifyWorkingSet B s")
  show ?case
  proof (cases r)
    case (Inl e)
    with v "1.prems" show ?thesis by (simp add: solve_loop.simps [of B s])
  next
    case (Inr operation)
    show ?thesis
    proof (cases "status s1 = PROBLEM_SOLVED \<or> status s1 = PROBLEM_SOLVED_CYCLING_HANDLING")
      case True
      with v Inr "1.prems" show ?thesis by (auto simp: solve_loop.simps [of B s])
    next
      case False
      show ?thesis
      proof (cases "nFactorizations s1 \<ge> max_number_of_factorizations (parameters s1)")
        case True
        with v Inr False "1.prems" show ?thesis by (auto simp: solve_loop.simps [of B s])
      next
        case nm: False
        with v Inr False have e: "solve_loop B s = solve_loop B s1"
          by (simp add: solve_loop.simps [of B s])
        from "1.prems" e have "fst (solve_loop B s1) = Inr st" by simp
        from "1.IH" [OF v [symmetric] Inr False nm this] e show ?thesis by auto
      qed
    qed
  qed
qed

text \<open>
  C2 (as amended). If an iteration ends without an exception, with a status that is
  neither \<open>PROBLEM_SOLVED\<close> nor \<open>PROBLEM_SOLVED_CYCLING_HANDLING\<close>, and with
  \<open>nFactorizations \<ge> max_number_of_factorizations\<close>, then \<open>solve()\<close> stops there and
  returns \<open>MAX_NUMBER_OF_FACTORIZATIONS_EXCEDED\<close>, which it also leaves in \<open>status\<close>.
  \<open>solve()\<close> always returns: with an exception of \<open>activate\<close> or \<open>deactivate\<close>, or else
  with one of the three statuses named, which is then also the value of \<open>status\<close>. The
  cap is tested after an iteration only, and \<open>nFactorizations\<close> is not reset: when
  \<open>solve()\<close> returns, \<open>nFactorizations\<close> is at most the larger of
  \<open>max_number_of_factorizations\<close> and its value at entry plus two (plus one when
  \<open>nIterations = 0\<close> at entry), so that one call factorizes at most
  \<open>max 2 max_number_of_factorizations\<close> times; from fresh counters
  (\<open>nFactorizations = 0\<close> and \<open>nIterations = 0\<close>) at most
  \<open>max 1 max_number_of_factorizations\<close> times.
\<close>

theorem solve_stops:
  "(verifyWorkingSet B t = (Inr operation, t') \<and>
    status t' \<noteq> PROBLEM_SOLVED \<and> status t' \<noteq> PROBLEM_SOLVED_CYCLING_HANDLING \<and>
    max_number_of_factorizations (parameters t') \<le> nFactorizations t' \<longrightarrow>
      solve_loop B t = (Inr MAX_NUMBER_OF_FACTORIZATIONS_EXCEDED,
                        t'\<lparr> status := MAX_NUMBER_OF_FACTORIZATIONS_EXCEDED \<rparr>)) \<and>
   (\<forall>st. fst (solve B s) = Inr st \<longrightarrow>
      st = status (snd (solve B s)) \<and>
      (st = PROBLEM_SOLVED \<or> st = PROBLEM_SOLVED_CYCLING_HANDLING \<or>
       st = MAX_NUMBER_OF_FACTORIZATIONS_EXCEDED)) \<and>
   nFactorizations (snd (solve B s))
     \<le> max (max_number_of_factorizations (parameters s))
           (nFactorizations s + (if nIterations s = 0 then 1 else 2)) \<and>
   nFactorizations (snd (solve B s)) - nFactorizations s
     \<le> max 2 (max_number_of_factorizations (parameters s)) \<and>
   (nFactorizations s = 0 \<and> nIterations s = 0 \<longrightarrow>
      nFactorizations (snd (solve B s)) \<le> max 1 (max_number_of_factorizations (parameters s)))"
proof (intro conjI impI allI)
  assume "verifyWorkingSet B t = (Inr operation, t') \<and>
    status t' \<noteq> PROBLEM_SOLVED \<and> status t' \<noteq> PROBLEM_SOLVED_CYCLING_HANDLING \<and>
    max_number_of_factorizations (parameters t') \<le> nFactorizations t'"
  then show "solve_loop B t = (Inr MAX_NUMBER_OF_FACTORIZATIONS_EXCEDED,
                        t'\<lparr> status := MAX_NUMBER_OF_FACTORIZATIONS_EXCEDED \<rparr>)"
    by (simp add: solve_loop.simps [of B t])
next
  fix st
  assume "fst (solve B s) = Inr st"
  then have "fst (solve_loop B (phase1 B s)) = Inr st" by (simp add: solve_def)
  from solve_loop_status [OF this]
  show "st = status (snd (solve B s))"
    and "st = PROBLEM_SOLVED \<or> st = PROBLEM_SOLVED_CYCLING_HANDLING \<or>
       st = MAX_NUMBER_OF_FACTORIZATIONS_EXCEDED"
    unfolding solve_def by blast+
next
  have b: "nFactorizations (snd (solve B s))
     \<le> max (max_number_of_factorizations (parameters s))
           (nFactorizations (phase1 B s) + (if nIterations s = 0 then 0 else 1))"
    using solve_loop_factorizations [of B "phase1 B s"] by (simp add: solve_def)
  with phase1_nFactorizations(2) [of B s]
  show c: "nFactorizations (snd (solve B s))
     \<le> max (max_number_of_factorizations (parameters s))
           (nFactorizations s + (if nIterations s = 0 then 1 else 2))"
    by (auto simp: max_def split: if_splits)
  then show "nFactorizations (snd (solve B s)) - nFactorizations s
     \<le> max 2 (max_number_of_factorizations (parameters s))"
    by (auto simp: max_def split: if_splits)
  assume "nFactorizations s = 0 \<and> nIterations s = 0"
  with c show "nFactorizations (snd (solve B s))
      \<le> max 1 (max_number_of_factorizations (parameters s))"
    by (simp add: max.commute)
qed


text \<open>
  An example: the solver for \<open>0 \<le> x \<le> 1\<close> with the row active at its lower bound and a
  cap of one factorization. Phase 1 factorizes once, the first iteration removes the
  row, and \<open>solve()\<close> stops at the cap.
\<close>

definition capped_at_one :: "(ConstraintActivationType list list, nat) LexLSI" where
  "capped_at_one =
     setParameters toy (defaults0\<lparr> max_number_of_factorizations := 1 \<rparr>) problem1_lb"

theorem solve_stops_witness:
  "fst (verifyWorkingSet toy (phase1 toy capped_at_one)) = Inr OPERATION_REMOVE \<and>
   status (snd (verifyWorkingSet toy (phase1 toy capped_at_one))) = TERMINATION_STATUS_UNKNOWN \<and>
   nFactorizations (snd (verifyWorkingSet toy (phase1 toy capped_at_one))) = 1 \<and>
   max_number_of_factorizations (parameters capped_at_one) = 1 \<and>
   nFactorizations capped_at_one = 0 \<and> nIterations capped_at_one = 0 \<and>
   fst (solve toy capped_at_one) = Inr MAX_NUMBER_OF_FACTORIZATIONS_EXCEDED \<and>
   status (snd (solve toy capped_at_one)) = MAX_NUMBER_OF_FACTORIZATIONS_EXCEDED \<and>
   nFactorizations (snd (solve toy capped_at_one)) \<le> 1"
proof -
  let ?p = "phase1 toy capped_at_one"
  let ?t = "snd (verifyWorkingSet toy ?p)"
  have v: "verifyWorkingSet toy ?p = (Inr OPERATION_REMOVE, ?t)"
    and f: "fst (verifyWorkingSet toy ?p) = Inr OPERATION_REMOVE"
    and st: "status ?t = TERMINATION_STATUS_UNKNOWN"
    and nf: "nFactorizations ?t = 1"
    and mx: "max_number_of_factorizations (parameters ?t) = 1"
    "max_number_of_factorizations (parameters capped_at_one) = 1"
    and z: "nFactorizations capped_at_one = 0" "nIterations capped_at_one = 0"
    by code_simp+
  note T = solve_stops [of toy ?p OPERATION_REMOVE ?t capped_at_one]
  from T v st nf mx(1)
  have "solve_loop toy ?p = (Inr MAX_NUMBER_OF_FACTORIZATIONS_EXCEDED,
      ?t\<lparr> status := MAX_NUMBER_OF_FACTORIZATIONS_EXCEDED \<rparr>)"
    by simp
  then have r: "fst (solve toy capped_at_one) = Inr MAX_NUMBER_OF_FACTORIZATIONS_EXCEDED"
    "status (snd (solve toy capped_at_one)) = MAX_NUMBER_OF_FACTORIZATIONS_EXCEDED"
    by (simp_all add: solve_def)
  from T z mx(2) have b: "nFactorizations (snd (solve toy capped_at_one)) \<le> 1" by simp
  show ?thesis by (intro conjI f st nf mx(2) z r b)
qed

text \<open>A solver with a cap of no factorization at all, and one equality row.\<close>

definition capped_at_zero :: "(ConstraintActivationType list list, nat) LexLSI" where
  "capped_at_zero =
     snd (setData toy 0 [[1, 2, 2]]
       (setParameters toy (defaults0\<lparr> max_number_of_factorizations := 0 \<rparr>) fresh1))"

text \<open>
  C2 as stated ("for every input, \<open>solve()\<close> returns after at most
  \<open>max_number_of_factorizations\<close> factorizations") fails for a cap of \<open>0\<close> and the one
  row \<open>2 \<le> a x \<le> 2\<close>: \<open>setData\<close> activates the row, phase 1 factorizes before any
  test of the cap, and \<open>solve()\<close> returns \<open>PROBLEM_SOLVED\<close> after one factorization.
\<close>

theorem cap_zero_counterexample:
  "max_number_of_factorizations (parameters capped_at_zero) = 0 \<and>
   nFactorizations capped_at_zero = 0 \<and> nIterations capped_at_zero = 0 \<and>
   working_sets capped_at_zero = [([CTR_ACTIVE_EQ], [0])] \<and>
   nFactorizations (phase1 toy capped_at_zero) = 1 \<and>
   fst (solve toy capped_at_zero) = Inr PROBLEM_SOLVED \<and>
   nFactorizations (snd (solve toy capped_at_zero)) = 1"
  by code_simp


section \<open>When \<open>solve\<close> reports that the problem is solved\<close>

text \<open>
  The loop over the objectives starts from \<open>alpha = 1\<close> and an objective only lowers
  \<open>alpha\<close>: a blocking constraint was found exactly when \<open>alpha\<close> is not \<open>1\<close> at the end.
\<close>

lemma checkBlockingConstraints_loop_alpha:
  "snd (snd (snd (checkBlockingConstraints_loop B tol objs i (oi, ci, ct, a)))) \<le> a"
proof (induction objs arbitrary: i oi ci ct a)
  case Nil
  show ?case by simp
next
  case (Cons obj objs)
  obtain f ci' ct' a' where o:
    "Objective_checkBlockingConstraints B obj (ci, ct, a) tol = (f, ci', ct', a')"
    by (cases "Objective_checkBlockingConstraints B obj (ci, ct, a) tol") auto
  then have "a' \<le> a"
    by (auto simp: Objective_checkBlockingConstraints_def split: option.splits if_splits)
  moreover have "snd (snd (snd (checkBlockingConstraints_loop B tol objs (Suc i)
      (if f then Some i else oi, ci', ct', a')))) \<le> a'"
    by (rule Cons.IH)
  ultimately show ?case using o by simp
qed

lemma alpha_of_blocking: "alpha_of (blocking B s) \<le> 1"
proof -
  let ?c = "checked_state B s"
  let ?l = "checkBlockingConstraints_loop B (tol_feasibility (parameters ?c))
      (take (nObj ?c) (objectives ?c)) 0 (None, None, CTR_INACTIVE, 1)"
  have "alpha_of (blocking B s) = snd (snd (snd ?l))"
    by (simp add: blocking_def checkBlockingConstraints_def alpha_of_def split: prod.splits)
  also have "\<dots> \<le> 1" by (rule checkBlockingConstraints_loop_alpha)
  finally show ?thesis .
qed

lemma blocking_alpha: "fst (blocking B s) \<longleftrightarrow> alpha_of (blocking B s) \<noteq> 1"
proof -
  have "fst (blocking B s) = (alpha_of (blocking B s) < 1)"
    by (simp add: blocking_def checkBlockingConstraints_def alpha_of_def split: prod.splits)
  with alpha_of_blocking [of B s] show ?thesis by auto
qed

text \<open>
  The iteration that starts in \<open>t\<close> finds the problem solved: the check of the
  blocking constraints leaves \<open>alpha = 1\<close>, the removal candidates are looked for (the
  iteration is not the first one of a run whose \<open>x0\<close> was given), and
  \<open>findActiveCtr2Remove\<close> returns false.
\<close>

definition solved_here :: "('l, 'c) backend \<Rightarrow> ('l, 'c) LexLSI \<Rightarrow> bool" where
  "solved_here B t \<longleftrightarrow>
     alpha_of (blocking B t) = 1 \<and>
     \<not> (nIterations t = 0 \<and> x0_is_specified t) \<and>
     fst (findActiveCtr2Remove B (checked_state B t)) = None"

text \<open>
  No iteration but one that finds the problem solved sets \<open>status\<close> to
  \<open>PROBLEM_SOLVED\<close>; the others leave \<open>status\<close> as it is, or assign what the cycling
  handler returns.
\<close>

lemma status_checked_state [simp]: "status (checked_state B s) = status s"
  by (simp add: checked_state_def refactorize_def formLexLSE_def formStep_def Let_def)

lemma status_end_of_iteration:
  "status s \<noteq> PROBLEM_SOLVED \<Longrightarrow>
     status (end_of_iteration B operation cid alpha s) \<noteq> PROBLEM_SOLVED"
  by (auto simp: end_of_iteration_def CyclingHandler_update_def Let_def split: prod.splits)

lemma iteration_solved:
  assumes "verifyWorkingSet B s = (r, s')" and "status s \<noteq> PROBLEM_SOLVED"
  shows "(solved_here B s \<longleftrightarrow> (\<exists>operation. r = Inr operation) \<and> status s' = PROBLEM_SOLVED) \<and>
         (solved_here B s \<longrightarrow> r = Inr OPERATION_UNDEFINED)"
  using assms(1)
proof (cases rule: verifyWorkingSet_cases)
  case (add ObjIndex CtrIndex type alpha c2)
  from add(1) have b: "fst (blocking B s)" by simp
  from activate_None(5) [OF add(2)] assms(2) have "status c2 \<noteq> PROBLEM_SOLVED" by simp
  then have "status s' \<noteq> PROBLEM_SOLVED" unfolding add(4) by (rule status_end_of_iteration)
  with b show ?thesis by (simp add: solved_here_def blocking_alpha)
next
  case (add_fails e)
  then show ?thesis by (simp add: solved_here_def blocking_alpha)
next
  case (remove ObjIndex k cid c2)
  from deactivate_None(4) [OF remove(4)] assms(2)
  have "status c2 \<noteq> PROBLEM_SOLVED" by (simp add: findActiveCtr2Remove_frame)
  then have "status s' \<noteq> PROBLEM_SOLVED" unfolding remove(6) by (rule status_end_of_iteration)
  with remove(3) show ?thesis by (simp add: solved_here_def)
next
  case (remove_fails e)
  then show ?thesis by (auto simp: solved_here_def)
next
  case solved
  then show ?thesis by (simp add: solved_here_def blocking_alpha)
next
  case skipped
  with assms(2) show ?thesis by (simp add: solved_here_def)
qed

lemma visited_not_Nil [simp]: "visited B s \<noteq> []"
  by (subst visited.simps) simp

lemma solve_loop_solved:
  "status p \<noteq> PROBLEM_SOLVED \<Longrightarrow>
     (fst (solve_loop B p) = Inr PROBLEM_SOLVED \<longleftrightarrow> (\<exists>t \<in> set (visited B p). solved_here B t)) \<and>
     (\<forall>t \<in> set (visited B p). solved_here B t \<longrightarrow>
        t = last (visited B p) \<and>
        verifyWorkingSet B t = (Inr OPERATION_UNDEFINED, snd (solve_loop B p)))"
proof (induction B p rule: solve_loop.induct)
  case (1 B s)
  obtain r s' where v: "verifyWorkingSet B s = (r, s')" by (cases "verifyWorkingSet B s")
  note it = iteration_solved [OF v "1.prems"]
  show ?case
  proof (cases r)
    case (Inl e)
    with v have "solve_loop B s = (Inl e, s')" "visited B s = [s]"
      by (simp_all add: solve_loop.simps [of B s] visited.simps [of B s])
    with it Inl show ?thesis by simp
  next
    case (Inr operation)
    show ?thesis
    proof (cases "status s' = PROBLEM_SOLVED")
      case True
      with v Inr have "solve_loop B s = (Inr PROBLEM_SOLVED, s')" "visited B s = [s]"
        by (simp_all add: solve_loop.simps [of B s] visited.simps [of B s])
      with it Inr True v show ?thesis by simp
    next
      case ns: False
      with it Inr have n: "\<not> solved_here B s" by simp
      show ?thesis
      proof (cases "status s' = PROBLEM_SOLVED_CYCLING_HANDLING")
        case True
        with v Inr have "solve_loop B s = (Inr PROBLEM_SOLVED_CYCLING_HANDLING, s')"
          "visited B s = [s]"
          by (simp_all add: solve_loop.simps [of B s] visited.simps [of B s])
        with n show ?thesis by simp
      next
        case nc: False
        show ?thesis
        proof (cases "max_number_of_factorizations (parameters s') \<le> nFactorizations s'")
          case True
          with v Inr ns nc have "fst (solve_loop B s) = Inr MAX_NUMBER_OF_FACTORIZATIONS_EXCEDED"
            "visited B s = [s]"
            by (simp_all add: solve_loop.simps [of B s] visited.simps [of B s])
          with n show ?thesis by simp
        next
          case False
          with v Inr ns nc have e: "solve_loop B s = solve_loop B s'"
            "visited B s = s # visited B s'"
            by (simp_all add: solve_loop.simps [of B s] visited.simps [of B s])
          from False ns nc have "\<not> (status s' = PROBLEM_SOLVED \<or>
              status s' = PROBLEM_SOLVED_CYCLING_HANDLING)"
            "\<not> max_number_of_factorizations (parameters s') \<le> nFactorizations s'"
            by simp_all
          from "1.IH" [OF v [symmetric] Inr this ns]
          show ?thesis using n by (simp add: e)
        qed
      qed
    qed
  qed
qed

text \<open>
  \<open>solve\<close> does not assign \<open>status\<close> before its loop, and an iteration assigns it only
  when it finds the problem solved or when it consults the cycling handler, which it
  does after an \<open>ADD\<close> or a \<open>REMOVE\<close> when cycling handling is enabled. \<open>stale_exit\<close>
  says that the loop started in \<open>p\<close> ends after its first iteration on the
  \<open>PROBLEM_SOLVED\<close> that it found in \<open>status\<close>: the iteration returns, and does not
  consult the cycling handler.
\<close>

definition stale_exit :: "('l, 'c) backend \<Rightarrow> ('l, 'c) LexLSI \<Rightarrow> bool" where
  "stale_exit B p \<longleftrightarrow>
     status p = PROBLEM_SOLVED \<and>
     (case fst (verifyWorkingSet B p) of
        Inl e \<Rightarrow> False
      | Inr operation \<Rightarrow>
          \<not> cycling_handling_enabled (parameters p) \<or> operation = OPERATION_UNDEFINED)"

lemma status_end_of_iteration_kept:
  "\<not> cycling_handling_enabled (parameters s) \<or> operation = OPERATION_UNDEFINED \<Longrightarrow>
     status (end_of_iteration B operation cid alpha s) = status s"
  by (auto simp: end_of_iteration_def Let_def)

lemma status_end_of_iteration_cycling:
  "cycling_handling_enabled (parameters s) \<Longrightarrow> operation \<noteq> OPERATION_UNDEFINED \<Longrightarrow>
     status (end_of_iteration B operation cid alpha s) \<noteq> PROBLEM_SOLVED"
  by (auto simp: end_of_iteration_def CyclingHandler_update_def Let_def split: prod.splits)

lemma iteration_status:
  assumes "verifyWorkingSet B s = (r, s')"
  shows "solved_here B s \<longrightarrow> r = Inr OPERATION_UNDEFINED \<and> status s' = PROBLEM_SOLVED"
    and "\<not> solved_here B s \<and> r = Inr operation \<and>
         (\<not> cycling_handling_enabled (parameters s) \<or> operation = OPERATION_UNDEFINED) \<longrightarrow>
           status s' = status s"
    and "r = Inr operation \<and> cycling_handling_enabled (parameters s) \<and>
         operation \<noteq> OPERATION_UNDEFINED \<longrightarrow> status s' \<noteq> PROBLEM_SOLVED"
proof -
  have "(solved_here B s \<longrightarrow> r = Inr OPERATION_UNDEFINED \<and> status s' = PROBLEM_SOLVED) \<and>
    (\<not> solved_here B s \<and> r = Inr operation \<and>
         (\<not> cycling_handling_enabled (parameters s) \<or> operation = OPERATION_UNDEFINED) \<longrightarrow>
           status s' = status s) \<and>
    (r = Inr operation \<and> cycling_handling_enabled (parameters s) \<and>
         operation \<noteq> OPERATION_UNDEFINED \<longrightarrow> status s' \<noteq> PROBLEM_SOLVED)"
    using assms
  proof (cases rule: verifyWorkingSet_cases)
    case (add ObjIndex CtrIndex type alpha c2)
    from add(1) have b: "fst (blocking B s)" by simp
    from activate_None(5) [OF add(2)]
    have c: "status c2 = status s" "parameters c2 = parameters s" by simp_all
    from b have n: "\<not> solved_here B s" by (simp add: solved_here_def blocking_alpha)
    have 2: "\<not> cycling_handling_enabled (parameters s) \<longrightarrow> status s' = status s"
      unfolding add(4) using c by (simp add: status_end_of_iteration_kept)
    have 3: "cycling_handling_enabled (parameters s) \<longrightarrow> status s' \<noteq> PROBLEM_SOLVED"
      unfolding add(4) using c by (simp add: status_end_of_iteration_cycling)
    from 2 3 n add(3) show ?thesis by auto
  next
    case (add_fails e)
    then show ?thesis by (simp add: solved_here_def blocking_alpha)
  next
    case (remove ObjIndex k cid c2)
    from deactivate_None(4) [OF remove(4)]
    have c: "status c2 = status s" "parameters c2 = parameters s"
      by (simp_all add: findActiveCtr2Remove_frame)
    from remove(3) have n: "\<not> solved_here B s" by (simp add: solved_here_def)
    have 2: "\<not> cycling_handling_enabled (parameters s) \<longrightarrow> status s' = status s"
      unfolding remove(6) using c by (simp add: status_end_of_iteration_kept)
    have 3: "cycling_handling_enabled (parameters s) \<longrightarrow> status s' \<noteq> PROBLEM_SOLVED"
      unfolding remove(6) using c by (simp add: status_end_of_iteration_cycling)
    from 2 3 n remove(5) show ?thesis by auto
  next
    case (remove_fails e)
    then show ?thesis by (auto simp: solved_here_def)
  next
    case solved
    then show ?thesis by (simp add: solved_here_def blocking_alpha)
  next
    case skipped
    then show ?thesis by (auto simp: solved_here_def)
  qed
  then show "solved_here B s \<longrightarrow> r = Inr OPERATION_UNDEFINED \<and> status s' = PROBLEM_SOLVED"
    and "\<not> solved_here B s \<and> r = Inr operation \<and>
         (\<not> cycling_handling_enabled (parameters s) \<or> operation = OPERATION_UNDEFINED) \<longrightarrow>
           status s' = status s"
    and "r = Inr operation \<and> cycling_handling_enabled (parameters s) \<and>
         operation \<noteq> OPERATION_UNDEFINED \<longrightarrow> status s' \<noteq> PROBLEM_SOLVED"
    by simp_all
qed

lemma solve_loop_returns_solved:
  "(fst (solve_loop B p) = Inr PROBLEM_SOLVED \<longleftrightarrow>
      (\<exists>t \<in> set (visited B p). solved_here B t) \<or> stale_exit B p) \<and>
   (\<forall>t \<in> set (visited B p). solved_here B t \<longrightarrow>
      t = last (visited B p) \<and>
      verifyWorkingSet B t = (Inr OPERATION_UNDEFINED, snd (solve_loop B p))) \<and>
   (stale_exit B p \<longrightarrow>
      visited B p = [p] \<and>
      solve_loop B p = (Inr PROBLEM_SOLVED, snd (verifyWorkingSet B p)))"
proof (cases "status p = PROBLEM_SOLVED")
  case False
  then have "\<not> stale_exit B p" by (simp add: stale_exit_def)
  with solve_loop_solved [OF False, of B] show ?thesis by simp
next
  case st: True
  obtain r s' where v: "verifyWorkingSet B p = (r, s')" by (cases "verifyWorkingSet B p")
  note it = iteration_status [OF v]
  show ?thesis
  proof (cases r)
    case (Inl e)
    with v have l: "solve_loop B p = (Inl e, s')" "visited B p = [p]"
      by (simp_all add: solve_loop.simps [of B p] visited.simps [of B p])
    from Inl it(1) have "\<not> solved_here B p" by auto
    moreover from Inl v have "\<not> stale_exit B p" by (simp add: stale_exit_def)
    ultimately show ?thesis using l by simp
  next
    case (Inr operation)
    show ?thesis
    proof (cases "status s' = PROBLEM_SOLVED")
      case True
      with v Inr have l: "solve_loop B p = (Inr PROBLEM_SOLVED, s')" "visited B p = [p]"
        by (simp_all add: solve_loop.simps [of B p] visited.simps [of B p])
      have "solved_here B p \<or> stale_exit B p"
        using it(3) [of operation] Inr True v st
        by (auto simp: stale_exit_def)
      moreover have "solved_here B p \<longrightarrow> r = Inr OPERATION_UNDEFINED"
        using it(1) by simp
      ultimately show ?thesis using l v by auto
    next
      case ns: False
      from it(1) ns have n: "\<not> solved_here B p" by auto
      have nst: "\<not> stale_exit B p"
        using it(2) [of operation] n Inr ns st v by (auto simp: stale_exit_def)
      show ?thesis
      proof (cases "status s' = PROBLEM_SOLVED_CYCLING_HANDLING")
        case True
        with v Inr have "solve_loop B p = (Inr PROBLEM_SOLVED_CYCLING_HANDLING, s')"
          "visited B p = [p]"
          by (simp_all add: solve_loop.simps [of B p] visited.simps [of B p])
        with n nst show ?thesis by simp
      next
        case nc: False
        show ?thesis
        proof (cases "max_number_of_factorizations (parameters s') \<le> nFactorizations s'")
          case True
          with v Inr ns nc have "fst (solve_loop B p) = Inr MAX_NUMBER_OF_FACTORIZATIONS_EXCEDED"
            "visited B p = [p]"
            by (simp_all add: solve_loop.simps [of B p] visited.simps [of B p])
          with n nst show ?thesis by simp
        next
          case False
          with v Inr ns nc have e: "solve_loop B p = solve_loop B s'"
            "visited B p = p # visited B s'"
            by (simp_all add: solve_loop.simps [of B p] visited.simps [of B p])
          from solve_loop_solved [OF ns, of B] n nst
          show ?thesis by (simp add: e)
        qed
      qed
    qed
  qed
qed

text \<open>
  C1 (as amended). \<open>solve()\<close> returns \<open>PROBLEM_SOLVED\<close> exactly when one of its
  iterations finds the problem solved, or \<open>status\<close> was \<open>PROBLEM_SOLVED\<close> when
  \<open>solve()\<close> was entered and the first iteration returns without consulting the
  cycling handler.
  \<^item> An iteration finds the problem solved when the check of the blocking
    constraints over all objectives leaves \<open>alpha = 1\<close>, the iteration looks for a
    removal candidate (it is not the first iteration of a run whose \<open>x0\<close> was given),
    and \<open>findActiveCtr2Remove\<close> reports none. Such an iteration is the last one of the
    run; it returns \<open>OPERATION_UNDEFINED\<close> and leaves \<open>solve()\<close>'s final state; no
    constraint is added to or removed from any working set in it, and neither
    \<open>nActivations\<close> nor \<open>nDeactivations\<close> changes.
  \<^item> When \<open>status\<close> is other than \<open>PROBLEM_SOLVED\<close> at entry, as it is in the first
    \<open>solve()\<close> after construction, \<open>solve()\<close> returns \<open>PROBLEM_SOLVED\<close> exactly when one of
    its iterations finds the problem solved.
  \<^item> \<open>solve()\<close> does not reset \<open>status\<close>. When \<open>status\<close> is \<open>PROBLEM_SOLVED\<close> at entry,
    and the first iteration returns, and cycling handling is disabled or the
    iteration did no \<open>ADD\<close> and no \<open>REMOVE\<close>, then \<open>solve()\<close> returns \<open>PROBLEM_SOLVED\<close>
    after this one iteration, whatever the iteration did. When the first iteration
    throws, \<open>solve()\<close> throws.
\<close>

theorem solved_exactly_when:
  "(fst (solve B s) = Inr PROBLEM_SOLVED \<longleftrightarrow>
      (\<exists>t \<in> set (visited B (phase1 B s)). solved_here B t) \<or> stale_exit B (phase1 B s)) \<and>
   (status s \<noteq> PROBLEM_SOLVED \<longrightarrow>
      (fst (solve B s) = Inr PROBLEM_SOLVED \<longleftrightarrow>
         (\<exists>t \<in> set (visited B (phase1 B s)). solved_here B t))) \<and>
   (\<forall>t \<in> set (visited B (phase1 B s)). solved_here B t \<longrightarrow>
      t = last (visited B (phase1 B s)) \<and>
      verifyWorkingSet B t = (Inr OPERATION_UNDEFINED, snd (solve B s)) \<and>
      working_sets (snd (solve B s)) = working_sets t \<and>
      nActivations (snd (solve B s)) = nActivations t \<and>
      nDeactivations (snd (solve B s)) = nDeactivations t) \<and>
   (status s = PROBLEM_SOLVED \<and> verifyWorkingSet B (phase1 B s) = (Inr operation, s') \<and>
    (\<not> cycling_handling_enabled (parameters s) \<or> operation = OPERATION_UNDEFINED) \<longrightarrow>
      solve B s = (Inr PROBLEM_SOLVED, s') \<and> visited B (phase1 B s) = [phase1 B s]) \<and>
   (verifyWorkingSet B (phase1 B s) = (Inl e, s'') \<longrightarrow> solve B s = (Inl e, s'')) \<and>
   stale_exit B (phase1 B s) =
     (status s = PROBLEM_SOLVED \<and>
      (\<exists>operation. fst (verifyWorkingSet B (phase1 B s)) = Inr operation \<and>
         (\<not> cycling_handling_enabled (parameters s) \<or> operation = OPERATION_UNDEFINED)))"
proof -
  note L = solve_loop_returns_solved [of B "phase1 B s", folded solve_def]
  show ?thesis
  proof (intro conjI ballI impI)
    show "stale_exit B (phase1 B s) =
     (status s = PROBLEM_SOLVED \<and>
      (\<exists>operation. fst (verifyWorkingSet B (phase1 B s)) = Inr operation \<and>
         (\<not> cycling_handling_enabled (parameters s) \<or> operation = OPERATION_UNDEFINED)))"
      by (cases "fst (verifyWorkingSet B (phase1 B s))") (simp_all add: stale_exit_def)
  next
    from L show "(fst (solve B s) = Inr PROBLEM_SOLVED) =
        ((\<exists>t \<in> set (visited B (phase1 B s)). solved_here B t) \<or> stale_exit B (phase1 B s))"
      by simp
  next
    assume "status s \<noteq> PROBLEM_SOLVED"
    then have "\<not> stale_exit B (phase1 B s)" by (simp add: stale_exit_def)
    with L show "(fst (solve B s) = Inr PROBLEM_SOLVED) =
        (\<exists>t \<in> set (visited B (phase1 B s)). solved_here B t)"
      by simp
  next
    fix t
    assume t: "t \<in> set (visited B (phase1 B s))" "solved_here B t"
    with L show "t = last (visited B (phase1 B s))"
      and v: "verifyWorkingSet B t = (Inr OPERATION_UNDEFINED, snd (solve B s))"
      by blast+
    from iteration_effect [OF v]
    show "working_sets (snd (solve B s)) = working_sets t"
      "nActivations (snd (solve B s)) = nActivations t"
      "nDeactivations (snd (solve B s)) = nDeactivations t"
      by simp_all
  next
    assume a: "status s = PROBLEM_SOLVED \<and>
      verifyWorkingSet B (phase1 B s) = (Inr operation, s') \<and>
      (\<not> cycling_handling_enabled (parameters s) \<or> operation = OPERATION_UNDEFINED)"
    then have "stale_exit B (phase1 B s)" by (auto simp: stale_exit_def)
    with L a show "solve B s = (Inr PROBLEM_SOLVED, s')"
      and "visited B (phase1 B s) = [phase1 B s]"
      by simp_all
  next
    assume "verifyWorkingSet B (phase1 B s) = (Inl e, s'')"
    then show "solve B s = (Inl e, s'')"
      by (simp add: solve_def solve_loop.simps [of B "phase1 B s"])
  qed
qed

text \<open>
  Examples. The solver for \<open>0 \<le> x \<le> 1\<close> with the row active at its lower bound: its
  first iteration removes the row, its second one finds the problem solved.
  \<open>restarted\<close> is the solver for \<open>0 \<le> x \<le> 1\<close> after a first \<open>solve()\<close>, which ended with
  \<open>PROBLEM_SOLVED\<close>, and a \<open>set_x0\<close> with the infeasible point \<open>2\<close>: its only iteration
  is an \<open>ADD\<close>, no iteration finds the problem solved, and \<open>solve()\<close> returns the
  \<open>PROBLEM_SOLVED\<close> that it found.
\<close>

definition restarted :: "(ConstraintActivationType list list, nat) LexLSI" where
  "restarted = set_x0 [2] (snd (solve toy problem1))"

theorem solved_exactly_when_witness:
  "status problem1_lb \<noteq> PROBLEM_SOLVED \<and>
   visited toy (phase1 toy problem1_lb)
     = [phase1 toy problem1_lb, snd (verifyWorkingSet toy (phase1 toy problem1_lb))] \<and>
   \<not> solved_here toy (phase1 toy problem1_lb) \<and>
   solved_here toy (snd (verifyWorkingSet toy (phase1 toy problem1_lb))) \<and>
   fst (solve toy problem1_lb) = Inr PROBLEM_SOLVED \<and>
   working_sets (snd (solve toy problem1_lb))
     = working_sets (snd (verifyWorkingSet toy (phase1 toy problem1_lb))) \<and>
   status restarted = PROBLEM_SOLVED \<and>
   \<not> cycling_handling_enabled (parameters restarted) \<and>
   fst (verifyWorkingSet toy (phase1 toy restarted)) = Inr OPERATION_ADD \<and>
   \<not> solved_here toy (phase1 toy restarted) \<and>
   stale_exit toy (phase1 toy restarted) \<and>
   visited toy (phase1 toy restarted) = [phase1 toy restarted] \<and>
   solve toy restarted
     = (Inr PROBLEM_SOLVED, snd (verifyWorkingSet toy (phase1 toy restarted)))"
proof -
  let ?p = "phase1 toy problem1_lb"
  let ?t = "snd (verifyWorkingSet toy ?p)"
  let ?q = "phase1 toy restarted"
  let ?u = "snd (verifyWorkingSet toy ?q)"
  have st: "status problem1_lb \<noteq> PROBLEM_SOLVED"
    and vs: "visited toy ?p = [?p, ?t]"
    and n: "\<not> solved_here toy ?p"
    and h: "solved_here toy ?t"
    by code_simp+
  from vs have m: "?t \<in> set (visited toy ?p)" by simp
  note T = solved_exactly_when [of toy problem1_lb]
  from T st m h have r: "fst (solve toy problem1_lb) = Inr PROBLEM_SOLVED" by blast
  from T [THEN conjunct2, THEN conjunct2, THEN conjunct1, rule_format, OF m h]
  have w: "working_sets (snd (solve toy problem1_lb)) = working_sets ?t" by simp
  have sr: "status restarted = PROBLEM_SOLVED"
    and nc: "\<not> cycling_handling_enabled (parameters restarted)"
    and fa: "fst (verifyWorkingSet toy ?q) = Inr OPERATION_ADD"
    and nh: "\<not> solved_here toy ?q"
    and se: "stale_exit toy ?q"
    by code_simp+
  from fa have va: "verifyWorkingSet toy ?q = (Inr OPERATION_ADD, ?u)"
    by (metis prod.collapse)
  note R = solved_exactly_when [of toy restarted OPERATION_ADD ?u, THEN conjunct2,
      THEN conjunct2, THEN conjunct2, THEN conjunct1, rule_format]
  from R sr va nc have x: "visited toy ?q = [?q]" "solve toy restarted = (Inr PROBLEM_SOLVED, ?u)"
    by simp_all
  show ?thesis by (intro conjI st vs n h r w sr nc fa nh se x)
qed

text \<open>
  C1 as stated fails for \<open>restarted\<close>: \<open>solve()\<close> does not reset \<open>status\<close>, and without
  cycling handling an iteration that adds a constraint does not assign it. The only
  iteration of the second \<open>solve()\<close> finds the upper bound blocking with \<open>alpha = 1/2\<close>
  and adds it to the working set; the loop then reads the \<open>PROBLEM_SOLVED\<close> of the
  first run and \<open>solve()\<close> returns it.
\<close>

theorem stale_status_counterexample:
  "status restarted = PROBLEM_SOLVED \<and>
   visited toy (phase1 toy restarted) = [phase1 toy restarted] \<and>
   fst (blocking toy (phase1 toy restarted)) \<and>
   alpha_of (blocking toy (phase1 toy restarted)) = 1 / 2 \<and>
   \<not> solved_here toy (phase1 toy restarted) \<and>
   fst (verifyWorkingSet toy (phase1 toy restarted)) = Inr OPERATION_ADD \<and>
   working_sets (phase1 toy restarted) = [([CTR_INACTIVE], [])] \<and>
   fst (solve toy restarted) = Inr PROBLEM_SOLVED \<and>
   working_sets (snd (solve toy restarted)) = [([CTR_ACTIVE_UB], [0])]"
  by code_simp

end
